theory Spec2Isabelle
  imports Complex_Main
begin

section \<open>PackFlow: values, exceptions and the runtime state\<close>

text \<open>
  The development follows \<^verbatim>\<open>src/packflow/__init__.py\<close>.

  A node object is addressed by a handle (Python compares nodes by identity); an action
  is a string. A Python dict is an association list in insertion order, a Python set is a
  duplicate-free list, and a value that may be \<^verbatim>\<open>None\<close> is an option.
\<close>

type_synonym handle = nat
type_synonym action = string
type_synonym 'v params = "(string \<times> 'v) list"

text \<open>
  Exceptions are values. \<open>Error\<close> is an exception raised by user code that is an instance
  of \<^verbatim>\<open>Exception\<close>; \<open>Interrupt\<close> is one that is not (\<^verbatim>\<open>KeyboardInterrupt\<close>,
  \<^verbatim>\<open>SystemExit\<close>), which \<^verbatim>\<open>except Exception\<close> does not catch.
\<close>

datatype exc = AttributeError | KeyError | RecursionError | Error string | Interrupt string

fun is_Exception :: "exc \<Rightarrow> bool" where
  "is_Exception (Interrupt _) = False"
| "is_Exception _ = True"

datatype warning = Wont_run_successors | Flow_ends action "action list"

text \<open>
  The runtime state: \<open>world\<close> is everything user hooks can read or write (the shared
  context and whatever else they reach), \<open>sleeps\<close> lists the durations passed to
  \<^verbatim>\<open>time.sleep\<close> so far and \<open>warnings\<close> the calls of \<^verbatim>\<open>warnings.warn\<close> made by the
  library, both in order. A user hook is a function of the world that returns a value or
  raises, and leaves a new world either way.
\<close>

record 'w state =
  world :: 'w
  sleeps :: "real list"
  warnings :: "warning list"

definition lift :: "('w \<Rightarrow> (exc + 'a) \<times> 'w) \<Rightarrow> 'w state \<Rightarrow> (exc + 'a) \<times> 'w state" where
  "lift h st = (case h (world st) of (res, w) \<Rightarrow> (res, st\<lparr>world := w\<rparr>))"

definition sleep :: "real \<Rightarrow> 'w state \<Rightarrow> 'w state" where
  "sleep t st = st\<lparr>sleeps := sleeps st @ [t]\<rparr>"

definition warn :: "warning \<Rightarrow> 'w state \<Rightarrow> 'w state" where
  "warn m st = st\<lparr>warnings := warnings st @ [m]\<rparr>"

text \<open>\<^verbatim>\<open>for x in xs: body\<close>, where the body may raise: the loop stops at the first
  exception, and the state reached so far stays.\<close>

fun for_each :: "('a \<Rightarrow> 's \<Rightarrow> exc option \<times> 's) \<Rightarrow> 'a list \<Rightarrow> 's \<Rightarrow> exc option \<times> 's" where
  "for_each body [] s = (None, s)"
| "for_each body (x # xs) s =
     (case body x s of
        (None, s') \<Rightarrow> for_each body xs s'
      | (Some e, s') \<Rightarrow> (Some e, s'))"

text \<open>\<^verbatim>\<open>d.get(k, default)\<close> on a dict.\<close>

definition dict_get :: "('k \<times> 'v) list \<Rightarrow> 'k \<Rightarrow> 'v \<Rightarrow> 'v" where
  "dict_get d k dflt = (case map_of d k of None \<Rightarrow> dflt | Some v \<Rightarrow> v)"

section \<open>Node execution: retry, fallback, batch\<close>

text \<open>\<^verbatim>\<open>BaseNode._exec\<close>: one call of the \<^verbatim>\<open>exec\<close> hook.\<close>

definition BaseNode_exec' :: "('p \<Rightarrow> 'w \<Rightarrow> (exc + 'r) \<times> 'w) \<Rightarrow> 'p \<Rightarrow> 'w state \<Rightarrow> (exc + 'r) \<times> 'w state" where
  "BaseNode_exec' exec prep_res st = lift (exec prep_res) st"

text \<open>\<^verbatim>\<open>Node.exec_fallback\<close> as the class defines it: \<^verbatim>\<open>raise exc\<close>.\<close>

definition exec_fallback :: "'p \<Rightarrow> exc \<Rightarrow> 'w \<Rightarrow> (exc + 'r) \<times> 'w" where
  "exec_fallback prep_res e w = (Inl e, w)"

text \<open>
  \<^verbatim>\<open>Node._exec\<close>. The \<^verbatim>\<open>exec\<close> hook can read \<^verbatim>\<open>self.cur_retry\<close>, so it takes it as
  its first argument. \<open>retry_loop\<close> is the \<^verbatim>\<open>for self.cur_retry in range(self.max_retries)\<close>
  loop with \<open>n\<close> iterations left, the next one at \<open>cur_retry\<close>. A loop that runs out
  (possible only when \<^verbatim>\<open>max_retries\<close> is not positive) falls off the end of the method,
  which then returns \<^verbatim>\<open>None\<close>; hence the result is an option.
\<close>

fun retry_loop ::
  "int \<Rightarrow> real \<Rightarrow> (nat \<Rightarrow> 'p \<Rightarrow> 'w \<Rightarrow> (exc + 'r) \<times> 'w) \<Rightarrow> ('p \<Rightarrow> exc \<Rightarrow> 'w \<Rightarrow> (exc + 'r) \<times> 'w) \<Rightarrow>
   'p \<Rightarrow> nat \<Rightarrow> nat \<Rightarrow> 'w state \<Rightarrow> (exc + 'r option) \<times> 'w state" where
  "retry_loop max_retries wait exec fallback prep_res 0 cur_retry st = (Inr None, st)"
| "retry_loop max_retries wait exec fallback prep_res (Suc n) cur_retry st =
     (case lift (exec cur_retry prep_res) st of
        (Inr r, st1) \<Rightarrow> (Inr (Some r), st1)
      | (Inl e, st1) \<Rightarrow>
          if \<not> is_Exception e then (Inl e, st1)
          else if int cur_retry = max_retries - 1 then
            (case lift (fallback prep_res e) st1 of (res, st2) \<Rightarrow> (map_sum id Some res, st2))
          else retry_loop max_retries wait exec fallback prep_res n (Suc cur_retry)
                 (if wait > 0 then sleep wait st1 else st1))"

definition Node_exec' ::
  "int \<Rightarrow> real \<Rightarrow> (nat \<Rightarrow> 'p \<Rightarrow> 'w \<Rightarrow> (exc + 'r) \<times> 'w) \<Rightarrow> ('p \<Rightarrow> exc \<Rightarrow> 'w \<Rightarrow> (exc + 'r) \<times> 'w) \<Rightarrow>
   'p \<Rightarrow> 'w state \<Rightarrow> (exc + 'r option) \<times> 'w state" where
  "Node_exec' max_retries wait exec fallback prep_res st =
     retry_loop max_retries wait exec fallback prep_res (nat max_retries) 0 st"

text \<open>
  For stating what a run of the loop does: the world in which attempt \<open>k\<close> (counted from
  0, the value of \<^verbatim>\<open>cur_retry\<close>) starts when the attempts before it have run one after
  the other from the world \<open>w\<close>.
\<close>

primrec world_before :: "(nat \<Rightarrow> 'p \<Rightarrow> 'w \<Rightarrow> (exc + 'r) \<times> 'w) \<Rightarrow> 'p \<Rightarrow> 'w \<Rightarrow> nat \<Rightarrow> 'w" where
  "world_before exec prep_res w 0 = w"
| "world_before exec prep_res w (Suc k) = snd (exec k prep_res (world_before exec prep_res w k))"

text \<open>
  \<^verbatim>\<open>BatchNode._exec\<close>: \<^verbatim>\<open>[super()._exec(i) for i in (items or [])]\<close>. The comprehension
  calls \<^verbatim>\<open>Node._exec\<close> on the items from left to right; an exception ends it.
\<close>

fun batch_items ::
  "int \<Rightarrow> real \<Rightarrow> (nat \<Rightarrow> 'p \<Rightarrow> 'w \<Rightarrow> (exc + 'r) \<times> 'w) \<Rightarrow> ('p \<Rightarrow> exc \<Rightarrow> 'w \<Rightarrow> (exc + 'r) \<times> 'w) \<Rightarrow>
   'p list \<Rightarrow> 'w state \<Rightarrow> (exc + 'r option list) \<times> 'w state" where
  "batch_items max_retries wait exec fallback [] st = (Inr [], st)"
| "batch_items max_retries wait exec fallback (i # items) st =
     (case Node_exec' max_retries wait exec fallback i st of
        (Inl e, st1) \<Rightarrow> (Inl e, st1)
      | (Inr r, st1) \<Rightarrow>
          (case batch_items max_retries wait exec fallback items st1 of
             (Inl e, st2) \<Rightarrow> (Inl e, st2)
           | (Inr rs, st2) \<Rightarrow> (Inr (r # rs), st2)))"

definition BatchNode_exec' ::
  "int \<Rightarrow> real \<Rightarrow> (nat \<Rightarrow> 'p \<Rightarrow> 'w \<Rightarrow> (exc + 'r) \<times> 'w) \<Rightarrow> ('p \<Rightarrow> exc \<Rightarrow> 'w \<Rightarrow> (exc + 'r) \<times> 'w) \<Rightarrow>
   'p list option \<Rightarrow> 'w state \<Rightarrow> (exc + 'r option list) \<times> 'w state" where
  "BatchNode_exec' max_retries wait exec fallback items st =
     batch_items max_retries wait exec fallback (case items of None \<Rightarrow> [] | Some xs \<Rightarrow> xs) st"

text \<open>For stating what the comprehension does: the state in which item \<open>k\<close> is processed,
  the items before it having been processed from left to right.\<close>

definition item_state ::
  "int \<Rightarrow> real \<Rightarrow> (nat \<Rightarrow> 'p \<Rightarrow> 'w \<Rightarrow> (exc + 'r) \<times> 'w) \<Rightarrow> ('p \<Rightarrow> exc \<Rightarrow> 'w \<Rightarrow> (exc + 'r) \<times> 'w) \<Rightarrow>
   'p list \<Rightarrow> 'w state \<Rightarrow> nat \<Rightarrow> 'w state" where
  "item_state max_retries wait exec fallback items st k =
     fold (\<lambda>i s. snd (Node_exec' max_retries wait exec fallback i s)) (take k items) st"

section \<open>Flows: the dependency graph\<close>

text \<open>
  A node object as the orchestrator uses it: its successor table (action label to list of
  nodes, a dict filled by \<^verbatim>\<open>next\<close>) and the three methods \<^verbatim>\<open>prep\<close>, \<^verbatim>\<open>_exec\<close> and
  \<^verbatim>\<open>post\<close>, each of which can read \<^verbatim>\<open>self.params\<close>. \<open>exec'\<close> is \<^verbatim>\<open>_exec\<close> of whichever
  class the node has (\<open>BaseNode_exec'\<close>, \<open>Node_exec'\<close>, \<open>BatchNode_exec'\<close>). The hooks do
  not change successor tables during a run.
\<close>

record ('v, 'w, 'p, 'r) node =
  successors :: "(action \<times> handle list) list"
  prep :: "'v params \<Rightarrow> 'w \<Rightarrow> (exc + 'p) \<times> 'w"
  exec' :: "'v params \<Rightarrow> 'p \<Rightarrow> 'w state \<Rightarrow> (exc + 'r) \<times> 'w state"
  post :: "'v params \<Rightarrow> 'p \<Rightarrow> 'r \<Rightarrow> 'w \<Rightarrow> (exc + action option) \<times> 'w"

text \<open>\<^verbatim>\<open>action or "default"\<close>: \<^verbatim>\<open>None\<close> and the empty string are falsy.\<close>

definition or_default :: "action option \<Rightarrow> action" where
  "or_default action = (case action of None \<Rightarrow> ''default'' | Some a \<Rightarrow> if a = [] then ''default'' else a)"

text \<open>
  \<^verbatim>\<open>Flow.get_next_nodes\<close>: the successors of \<^verbatim>\<open>curr\<close> under an action, with a warning
  when there are none although the node has successors under other labels.
\<close>

definition Flow_get_next_nodes ::
  "(action \<times> handle list) list \<Rightarrow> action option \<Rightarrow> 'w state \<Rightarrow> handle list \<times> 'w state" where
  "Flow_get_next_nodes curr_successors action st =
     (let action = or_default action;
          next_nodes = dict_get curr_successors action []
      in (next_nodes,
          if next_nodes = [] \<and> curr_successors \<noteq> []
          then warn (Flow_ends action (map fst curr_successors)) st else st))"

text \<open>
  The two dicts of \<^verbatim>\<open>_build_dependency_graph\<close>. \<open>expanded\<close> is not in the source: it
  records, in order, the node of every call of \<^verbatim>\<open>add_dependency\<close>, that is, every time a
  successor table is enumerated.
\<close>

record depgraph =
  dependencies :: "(handle \<times> handle list) list"
  reverse_deps :: "(handle \<times> handle list) list"
  expanded :: "handle list"

text \<open>\<^verbatim>\<open>if n not in d: d[n] = set()\<close> and \<^verbatim>\<open>d[k].add(v)\<close> (for a key that is present).\<close>

definition ensure_key :: "handle \<Rightarrow> (handle \<times> handle list) list \<Rightarrow> (handle \<times> handle list) list" where
  "ensure_key n d = (if map_of d n = None then d @ [(n, [])] else d)"

definition set_add :: "handle \<Rightarrow> handle \<Rightarrow> (handle \<times> handle list) list \<Rightarrow> (handle \<times> handle list) list" where
  "set_add k v d = map (\<lambda>(k', vs). if k' = k then (k', List.insert v vs) else (k', vs)) d"

text \<open>The body of the innermost loop before the recursive call.\<close>

definition add_edge :: "handle \<Rightarrow> handle \<Rightarrow> depgraph \<Rightarrow> depgraph" where
  "add_edge node succ g =
     g\<lparr>dependencies := set_add succ node (ensure_key succ (dependencies g)),
       reverse_deps := set_add node succ (ensure_key succ (reverse_deps g))\<rparr>"

text \<open>The first lines of \<^verbatim>\<open>add_dependency\<close>: the node gets its two entries.\<close>

definition visit :: "handle \<Rightarrow> depgraph \<Rightarrow> depgraph" where
  "visit node g =
     g\<lparr>dependencies := ensure_key node (dependencies g),
       reverse_deps := ensure_key node (reverse_deps g),
       expanded := expanded g @ [node]\<rparr>"

text \<open>
  \<^verbatim>\<open>add_dependency\<close>. Python bounds the depth of the recursion: \<open>depth\<close> is the number of
  nested calls the interpreter still allows, and a call beyond it raises
  \<^verbatim>\<open>RecursionError\<close>. \<open>succs\<close> gives each node's successor table. A table holds lists, so
  the \<^verbatim>\<open>isinstance\<close> test of the source is always true.
\<close>

fun add_dependency ::
  "(handle \<Rightarrow> (action \<times> handle list) list) \<Rightarrow> nat \<Rightarrow> handle \<Rightarrow> action option \<Rightarrow> depgraph \<Rightarrow>
   exc option \<times> depgraph" where
  "add_dependency succs 0 node action g = (Some RecursionError, g)"
| "add_dependency succs (Suc depth) node action g =
     (let g1 = visit node g;
          actions = (case action of
                       None \<Rightarrow> map fst (succs node)
                     | Some a \<Rightarrow> if a = [] then map fst (succs node) else [a])
      in for_each
           (\<lambda>curr_action.
              for_each (\<lambda>succ g2. add_dependency succs depth succ None (add_edge node succ g2))
                (dict_get (succs node) curr_action []))
           actions g1)"

definition Flow_build_dependency_graph ::
  "(handle \<Rightarrow> (action \<times> handle list) list) \<Rightarrow> nat \<Rightarrow> handle \<Rightarrow> (handle \<rightharpoonup> action) \<Rightarrow> exc + depgraph" where
  "Flow_build_dependency_graph succs depth start action_map =
     (case add_dependency succs depth start (action_map start)
             \<lparr>dependencies = [], reverse_deps = [], expanded = []\<rparr> of
        (Some e, g) \<Rightarrow> Inl e
      | (None, g) \<Rightarrow> Inr g)"

text \<open>\<^verbatim>\<open>dependencies[n]\<close> and \<^verbatim>\<open>reverse_deps[n]\<close> as sets (empty for a missing key).\<close>

definition deps_of :: "depgraph \<Rightarrow> handle \<Rightarrow> handle set" where
  "deps_of g n = set (dict_get (dependencies g) n [])"

definition rdeps_of :: "depgraph \<Rightarrow> handle \<Rightarrow> handle set" where
  "rdeps_of g n = set (dict_get (reverse_deps g) n [])"

text \<open>
  For stating what the construction does. \<open>edge\<close>: \<open>m\<close> is a successor of \<open>n\<close> under some
  label of the table of \<open>n\<close>. \<open>targets\<close>: the successors that one call of
  \<^verbatim>\<open>add_dependency\<close> goes through, in order (those under \<^verbatim>\<open>action\<close> when it is truthy, those
  under all labels otherwise). \<open>keys\<close>: the nodes that have an entry in \<^verbatim>\<open>dependencies\<close>.
  \<open>wf_graph\<close>: the two dicts have the same keys, \<^verbatim>\<open>reverse_deps\<close> is the converse of
  \<^verbatim>\<open>dependencies\<close>, and only keys occur in the sets.
\<close>

definition edge :: "(handle \<Rightarrow> (action \<times> handle list) list) \<Rightarrow> handle \<Rightarrow> handle \<Rightarrow> bool" where
  "edge succs n m = (\<exists>a\<in>set (map fst (succs n)). m \<in> set (dict_get (succs n) a []))"

definition targets :: "(handle \<Rightarrow> (action \<times> handle list) list) \<Rightarrow> handle \<Rightarrow> action option \<Rightarrow> handle list" where
  "targets succs node action =
     concat (map (\<lambda>curr_action. dict_get (succs node) curr_action [])
       (case action of
          None \<Rightarrow> map fst (succs node)
        | Some a \<Rightarrow> if a = [] then map fst (succs node) else [a]))"

definition keys :: "depgraph \<Rightarrow> handle set" where
  "keys g = dom (map_of (dependencies g))"

definition wf_graph :: "depgraph \<Rightarrow> bool" where
  "wf_graph g =
     (dom (map_of (reverse_deps g)) = dom (map_of (dependencies g)) \<and>
      (\<forall>x y. y \<in> rdeps_of g x \<longleftrightarrow> x \<in> deps_of g y) \<and>
      (\<forall>x y. x \<in> deps_of g y \<longrightarrow> x \<in> keys g \<and> y \<in> keys g))"

text \<open>The two empty dicts the construction starts from.\<close>

definition empty_graph :: depgraph where
  "empty_graph = \<lparr>dependencies = [], reverse_deps = [], expanded = []\<rparr>"

text \<open>
  \<open>explored\<close>: the nodes reached from the targets of the first call along edges of any
  label. \<open>walks\<close>: the nodes of the calls that \<^verbatim>\<open>add_dependency\<close> makes down to a given
  depth when no call looks at what has been visited: the node, then the same for each
  target in turn.
\<close>

definition explored :: "(handle \<Rightarrow> (action \<times> handle list) list) \<Rightarrow> handle \<Rightarrow> action option \<Rightarrow> handle \<Rightarrow> bool" where
  "explored succs node action x =
     (\<exists>t\<in>set (targets succs node action). (edge succs)\<^sup>*\<^sup>* t x)"

fun walks :: "(handle \<Rightarrow> (action \<times> handle list) list) \<Rightarrow> nat \<Rightarrow> handle \<Rightarrow> action option \<Rightarrow> handle list" where
  "walks succs 0 node action = []"
| "walks succs (Suc depth) node action =
     node # concat (map (\<lambda>succ. walks succs depth succ None) (targets succs node action))"

section \<open>Flows: the orchestration loop\<close>

text \<open>
  The local state of \<^verbatim>\<open>_orch\<close>: the action map, the dependency graph, the completed set
  (in insertion order) and the runtime state. Two fields are not in the source: \<open>wave\<close>
  counts the iterations of the \<^verbatim>\<open>while\<close> loop (0 while the start node runs), and
  \<open>trace\<close> has one entry for every node whose lifecycle \<^verbatim>\<open>execute_node\<close> starts: the wave,
  the node, the completed set and the runtime state at that moment.
\<close>

record 'w entry =
  e_wave :: nat
  e_node :: handle
  e_done :: "handle list"
  e_seen :: "'w state"

record 'w orch =
  action_map :: "handle \<rightharpoonup> action"
  graph :: depgraph
  completed_nodes :: "handle list"
  rt :: "'w state"
  wave :: nat
  trace :: "'w entry list"

text \<open>
  The three calls of \<^verbatim>\<open>execute_node\<close> on the copy of the node: \<^verbatim>\<open>prep\<close>, \<^verbatim>\<open>_exec\<close>,
  \<^verbatim>\<open>post\<close>. The copy differs from the node in its params only, which the hooks receive as
  \<open>p\<close>. The value is what \<^verbatim>\<open>post\<close> returned.
\<close>

definition lifecycle ::
  "('v, 'w, 'p, 'r) node \<Rightarrow> 'v params \<Rightarrow> 'w state \<Rightarrow> (exc + action option) \<times> 'w state" where
  "lifecycle node_copy p st =
     (case lift (prep node_copy p) st of
        (Inl e, st1) \<Rightarrow> (Inl e, st1)
      | (Inr prep_res, st1) \<Rightarrow>
          (case exec' node_copy p prep_res st1 of
             (Inl e, st2) \<Rightarrow> (Inl e, st2)
           | (Inr exec_res, st2) \<Rightarrow> lift (post node_copy p prep_res exec_res) st2))"

text \<open>\<^verbatim>\<open>execute_node\<close>, for a node object.\<close>

definition execute_node ::
  "(handle \<Rightarrow> ('v, 'w, 'p, 'r) node) \<Rightarrow> 'v params \<Rightarrow> handle \<Rightarrow> 'w orch \<Rightarrow> exc option \<times> 'w orch" where
  "execute_node nodes p node s =
     (if action_map s node \<noteq> None then (None, s)
      else
        let s0 = s\<lparr>trace := trace s @
                   [\<lparr>e_wave = wave s, e_node = node, e_done = completed_nodes s, e_seen = rt s\<rparr>]\<rparr>
        in case lifecycle (nodes node) p (rt s0) of
             (Inl e, st) \<Rightarrow> (Some e, s0\<lparr>rt := st\<rparr>)
           | (Inr action, st) \<Rightarrow>
               (None, s0\<lparr>rt := st, action_map := (action_map s0)(node \<mapsto> or_default action)\<rparr>))"

text \<open>The \<^verbatim>\<open>for node in ready_nodes\<close> loop of one wave.\<close>

definition run_wave ::
  "(handle \<Rightarrow> ('v, 'w, 'p, 'r) node) \<Rightarrow> 'v params \<Rightarrow> handle list \<Rightarrow> 'w orch \<Rightarrow> exc option \<times> 'w orch" where
  "run_wave nodes p ready_nodes s =
     for_each
       (\<lambda>node s1.
          if node \<in> set (completed_nodes s1) then (None, s1)
          else (case execute_node nodes p node s1 of
                  (Some e, s2) \<Rightarrow> (Some e, s2)
                | (None, s2) \<Rightarrow> (None, s2\<lparr>completed_nodes := completed_nodes s2 @ [node]\<rparr>)))
       ready_nodes s"

text \<open>
  The two nested loops that collect the next candidates. \<^verbatim>\<open>dependencies[dependent]\<close>
  raises \<^verbatim>\<open>KeyError\<close> for a key that is missing.
\<close>

definition collect_ready :: "depgraph \<Rightarrow> handle list \<Rightarrow> exc option \<times> handle list" where
  "collect_ready g completed =
     for_each
       (\<lambda>node.
          for_each
            (\<lambda>dependent ready_nodes.
               case map_of (dependencies g) dependent of
                 None \<Rightarrow> (Some KeyError, ready_nodes)
               | Some deps \<Rightarrow>
                   (None, if \<forall>dep\<in>set deps. dep \<in> set completed
                          then ready_nodes @ [dependent] else ready_nodes))
            (dict_get (reverse_deps g) node []))
       completed []"

text \<open>
  \<^verbatim>\<open>list(s)\<close> for a set \<open>s\<close>. Python iterates a set in an order fixed by the hashes of its
  elements and the history of the set; the model takes any key function and sorts by it,
  so that every order of the elements is the result for some key.
\<close>

definition list_of_set :: "(handle \<Rightarrow> nat) \<Rightarrow> handle list \<Rightarrow> handle list" where
  "list_of_set key xs = sort_key key (remdups xs)"

text \<open>The nodes of a dependency graph that can be made ready: all reverse dependents.\<close>

definition dependents :: "depgraph \<Rightarrow> handle set" where
  "dependents g = set (concat (map snd (reverse_deps g)))"

subsection \<open>The \<^verbatim>\<open>while ready_nodes\<close> loop\<close>

lemma for_each_inv:
  assumes "for_each body xs s = (r, s')" and "I s"
    and "\<And>x s r s'. x \<in> set xs \<Longrightarrow> I s \<Longrightarrow> body x s = (r, s') \<Longrightarrow> I s'"
  shows "I s'"
  using assms
proof (induction xs arbitrary: s)
  case Nil
  then show ?case by simp
next
  case (Cons x xs)
  obtain r1 s1 where b: "body x s = (r1, s1)" by (cases "body x s")
  have I1: "I s1" using Cons.prems(3)[OF _ Cons.prems(2) b] by simp
  show ?case
  proof (cases r1)
    case None
    then have "for_each body xs s1 = (r, s')" using Cons.prems(1) b by simp
    then show ?thesis using Cons.IH I1 Cons.prems(3) by (metis list.set_intros(2))
  next
    case (Some e)
    then show ?thesis using Cons.prems(1) b I1 by simp
  qed
qed

lemma execute_node_frame:
  assumes "execute_node nodes p n s = (r, s')"
  shows "graph s' = graph s \<and> completed_nodes s' = completed_nodes s \<and> wave s' = wave s"
  using assms
  by (auto simp: execute_node_def Let_def split: if_splits prod.splits sum.splits)

lemma run_wave_completed:
  "run_wave nodes p ready s = (None, s') \<Longrightarrow>
     graph s' = graph s \<and> set (completed_nodes s') = set (completed_nodes s) \<union> set ready"
proof (induction ready arbitrary: s)
  case Nil
  then show ?case by (simp add: run_wave_def)
next
  case (Cons n ready)
  show ?case
  proof (cases "n \<in> set (completed_nodes s)")
    case True
    then have "run_wave nodes p ready s = (None, s')"
      using Cons.prems by (simp add: run_wave_def)
    from Cons.IH[OF this] True show ?thesis by auto
  next
    case False
    then obtain s1 where e: "execute_node nodes p n s = (None, s1)"
      and r: "run_wave nodes p ready (s1\<lparr>completed_nodes := completed_nodes s1 @ [n]\<rparr>) = (None, s')"
      using Cons.prems by (auto simp: run_wave_def split: prod.splits option.splits)
    from Cons.IH[OF r] execute_node_frame[OF e] show ?thesis by auto
  qed
qed

lemma collect_ready_dependents:
  assumes "collect_ready g completed = (r, ready)"
  shows "set ready \<subseteq> dependents g"
proof -
  let ?inner = "\<lambda>dependent ready_nodes.
               case map_of (dependencies g) dependent of
                 None \<Rightarrow> (Some KeyError, ready_nodes)
               | Some deps \<Rightarrow>
                   (None, if \<forall>dep\<in>set deps. dep \<in> set completed
                          then ready_nodes @ [dependent] else ready_nodes)"
  have inner: "set acc' \<subseteq> dependents g"
    if "for_each ?inner (dict_get (reverse_deps g) node []) acc = (r', acc')" "set acc \<subseteq> dependents g"
    for node acc r' acc'
  proof (rule for_each_inv[OF that(1), where I = "\<lambda>a. set a \<subseteq> dependents g"])
    show "set acc \<subseteq> dependents g" by fact
  next
    fix x s r s'
    assume x: "x \<in> set (dict_get (reverse_deps g) node [])" and s: "set s \<subseteq> dependents g"
      and b: "?inner x s = (r, s')"
    have "x \<in> dependents g"
    proof (cases "map_of (reverse_deps g) node")
      case None
      then show ?thesis using x by (simp add: dict_get_def)
    next
      case (Some ds)
      then have "(node, ds) \<in> set (reverse_deps g)" by (rule map_of_SomeD)
      moreover have "x \<in> set ds" using x Some by (simp add: dict_get_def)
      ultimately show ?thesis by (force simp: dependents_def)
    qed
    then show "set s' \<subseteq> dependents g"
      using s b by (auto split: option.splits if_splits)
  qed
  show ?thesis
    by (rule for_each_inv[OF assms[unfolded collect_ready_def], where I = "\<lambda>a. set a \<subseteq> dependents g"])
       (use inner in auto)
qed

text \<open>
  One iteration runs the wave, collects the candidates and takes
  \<^verbatim>\<open>list(set(ready_nodes) - completed_nodes)\<close>. \<open>order k\<close> is the key of the set order in
  wave \<open>k\<close>. The loop ends for every input: a wave either completes a new node, of the
  finitely many the graph and the list hold, or its successor holds no completed node.
\<close>

function wave_loop ::
  "(handle \<Rightarrow> ('v, 'w, 'p, 'r) node) \<Rightarrow> 'v params \<Rightarrow> (nat \<Rightarrow> handle \<Rightarrow> nat) \<Rightarrow> handle list \<Rightarrow> 'w orch \<Rightarrow>
   exc option \<times> 'w orch" where
  "wave_loop nodes p order ready_nodes s =
     (if ready_nodes = [] then (None, s)
      else case run_wave nodes p ready_nodes (s\<lparr>wave := Suc (wave s)\<rparr>) of
             (Some e, s1) \<Rightarrow> (Some e, s1)
           | (None, s1) \<Rightarrow>
               (case collect_ready (graph s1) (completed_nodes s1) of
                  (Some e, ready) \<Rightarrow> (Some e, s1)
                | (None, ready) \<Rightarrow>
                    wave_loop nodes p order
                      (list_of_set (order (wave s1))
                         (filter (\<lambda>n. n \<notin> set (completed_nodes s1)) ready))
                      s1))"
  by pat_completeness auto
termination
proof (relation "inv_image (less_than <*lex*> less_than)
         (\<lambda>(nodes, p, order, ready_nodes, s).
            (card ((dependents (graph s) \<union> set ready_nodes) - set (completed_nodes s)),
             length (filter (\<lambda>n. n \<in> set (completed_nodes s)) ready_nodes)))", goal_cases)
  case 1
  show ?case by auto
next
  case (2 nodes p order ready_nodes s x1 s1 x2 ready)
  have w: "run_wave nodes p ready_nodes (s\<lparr>wave := Suc (wave s)\<rparr>) = (None, s1)"
    using 2 by simp
  have c: "collect_ready (graph s1) (completed_nodes s1) = (None, ready)"
    using 2 by simp
  from run_wave_completed[OF w] have g: "graph s1 = graph s"
    and C1: "set (completed_nodes s1) = set (completed_nodes s) \<union> set ready_nodes" by auto
  let ?U = "dependents (graph s)" and ?C = "set (completed_nodes s)"
  let ?ready' = "list_of_set (order (wave s1)) (filter (\<lambda>n. n \<notin> set (completed_nodes s1)) ready)"
  have r': "set ?ready' \<subseteq> ?U - set (completed_nodes s1)"
    using collect_ready_dependents[OF c] g by (auto simp: list_of_set_def)
  have fin: "finite ((?U \<union> set ready_nodes) - ?C)" by (simp add: dependents_def)
  have sub: "(?U \<union> set ?ready') - set (completed_nodes s1) \<subseteq> (?U \<union> set ready_nodes) - ?C"
    using r' C1 by auto
  show ?case
  proof (cases "set ready_nodes \<subseteq> ?C")
    case True
    have "filter (\<lambda>n. n \<in> set (completed_nodes s1)) ?ready' = []"
      using r' by (auto simp: filter_empty_conv)
    moreover have "filter (\<lambda>n. n \<in> ?C) ready_nodes = ready_nodes" using True by (auto simp: filter_id_conv)
    moreover have "card ((?U \<union> set ?ready') - set (completed_nodes s1)) \<le> card ((?U \<union> set ready_nodes) - ?C)"
      using sub fin by (rule card_mono[rotated])
    ultimately show ?thesis using 2(1) g by (auto simp: less_than_iff)
  next
    case False
    then obtain x where x: "x \<in> set ready_nodes" "x \<notin> ?C" by auto
    have "x \<in> (?U \<union> set ready_nodes) - ?C" using x by simp
    moreover have "x \<notin> (?U \<union> set ?ready') - set (completed_nodes s1)" using x C1 by simp
    ultimately have "(?U \<union> set ?ready') - set (completed_nodes s1) \<subset> (?U \<union> set ready_nodes) - ?C"
      using sub by blast
    then have "card ((?U \<union> set ?ready') - set (completed_nodes s1)) < card ((?U \<union> set ready_nodes) - ?C)"
      using fin by (rule psubset_card_mono[rotated])
    then show ?thesis using g by simp
  qed
qed

declare wave_loop.simps [simp del]

subsection \<open>\<^verbatim>\<open>_orch\<close>, \<^verbatim>\<open>_run\<close> and \<^verbatim>\<open>run\<close>\<close>

text \<open>
  A flow object: the start node (\<^verbatim>\<open>None\<close> until it is set), its params, its own successor
  table and its own \<^verbatim>\<open>prep\<close> and \<^verbatim>\<open>post\<close>, which a subclass may override.
\<close>

record ('v, 'w, 'fp, 'fr) flow =
  start_node :: "handle option"
  params :: "'v params"
  flow_successors :: "(action \<times> handle list) list"
  flow_prep :: "'v params \<Rightarrow> 'w \<Rightarrow> (exc + 'fp) \<times> 'w"
  flow_post :: "'v params \<Rightarrow> 'fp \<Rightarrow> action option \<Rightarrow> 'w \<Rightarrow> (exc + 'fr) \<times> 'w"

text \<open>\<^verbatim>\<open>BaseNode.prep\<close> (\<^verbatim>\<open>pass\<close>) and \<^verbatim>\<open>Flow.post\<close> (\<^verbatim>\<open>return exec_res\<close>).\<close>

definition BaseNode_prep :: "'v params \<Rightarrow> 'w \<Rightarrow> (exc + unit) \<times> 'w" where
  "BaseNode_prep p w = (Inr (), w)"

definition Flow_post :: "'v params \<Rightarrow> 'fp \<Rightarrow> action option \<Rightarrow> 'w \<Rightarrow> (exc + action option) \<times> 'w" where
  "Flow_post p prep_res exec_res w = (Inr exec_res, w)"

text \<open>\<^verbatim>\<open>p = params or {**self.params}\<close>: \<^verbatim>\<open>None\<close> and the empty dict are falsy.\<close>

definition orch_params :: "('v, 'w, 'fp, 'fr) flow \<Rightarrow> 'v params option \<Rightarrow> 'v params" where
  "orch_params flow prms = (case prms of None \<Rightarrow> params flow | Some q \<Rightarrow> if q = [] then params flow else q)"

text \<open>The local state when \<^verbatim>\<open>_orch\<close> starts.\<close>

definition orch_init :: "'w state \<Rightarrow> 'w orch" where
  "orch_init shared =
     \<lparr>action_map = Map.empty,
      graph = \<lparr>dependencies = [], reverse_deps = [], expanded = []\<rparr>,
      completed_nodes = [], rt = shared, wave = 0, trace = []\<rparr>"

text \<open>
  \<^verbatim>\<open>_orch\<close> with its local state. With no start node, \<^verbatim>\<open>execute_node(None)\<close> copies
  \<^verbatim>\<open>None\<close> and fails at \<^verbatim>\<open>None.set_params\<close> with \<^verbatim>\<open>AttributeError\<close>. \<open>depth\<close> is the
  recursion depth left for the graph construction, \<open>order\<close> the set order of each wave.
\<close>

definition orch_run ::
  "(handle \<Rightarrow> ('v, 'w, 'p, 'r) node) \<Rightarrow> ('v, 'w, 'fp, 'fr) flow \<Rightarrow> nat \<Rightarrow> (nat \<Rightarrow> handle \<Rightarrow> nat) \<Rightarrow>
   'w state \<Rightarrow> 'v params option \<Rightarrow> (exc + action option) \<times> 'w orch" where
  "orch_run nodes flow depth order shared prms =
     (let s0 = orch_init shared;
          p = orch_params flow prms
      in case start_node flow of
           None \<Rightarrow> (Inl AttributeError, s0)
         | Some start \<Rightarrow>
             (case execute_node nodes p start s0 of
                (Some e, s1) \<Rightarrow> (Inl e, s1)
              | (None, s1) \<Rightarrow>
                  (case Flow_build_dependency_graph (\<lambda>n. successors (nodes n)) depth start (action_map s1) of
                     Inl e \<Rightarrow> (Inl e, s1)
                   | Inr g \<Rightarrow>
                       let s2 = s1\<lparr>graph := g, completed_nodes := [start]\<rparr>;
                           ready_nodes = filter (\<lambda>node. set (dict_get (dependencies g) node []) \<subseteq> set (completed_nodes s2))
                                           (map fst (dependencies g))
                       in (case wave_loop nodes p order ready_nodes s2 of
                             (Some e, s3) \<Rightarrow> (Inl e, s3)
                           | (None, s3) \<Rightarrow> (Inr (action_map s3 start), s3)))))"

definition Flow_orch ::
  "(handle \<Rightarrow> ('v, 'w, 'p, 'r) node) \<Rightarrow> ('v, 'w, 'fp, 'fr) flow \<Rightarrow> nat \<Rightarrow> (nat \<Rightarrow> handle \<Rightarrow> nat) \<Rightarrow>
   'w state \<Rightarrow> 'v params option \<Rightarrow> (exc + action option) \<times> 'w state" where
  "Flow_orch nodes flow depth order shared prms =
     (case orch_run nodes flow depth order shared prms of (res, s) \<Rightarrow> (res, rt s))"

text \<open>\<^verbatim>\<open>Flow._run\<close>, and \<^verbatim>\<open>BaseNode.run\<close> on a flow (the run entry point).\<close>

definition Flow_run' ::
  "(handle \<Rightarrow> ('v, 'w, 'p, 'r) node) \<Rightarrow> ('v, 'w, 'fp, 'fr) flow \<Rightarrow> nat \<Rightarrow> (nat \<Rightarrow> handle \<Rightarrow> nat) \<Rightarrow>
   'w state \<Rightarrow> (exc + 'fr) \<times> 'w state" where
  "Flow_run' nodes flow depth order shared =
     (case lift (flow_prep flow (params flow)) shared of
        (Inl e, st1) \<Rightarrow> (Inl e, st1)
      | (Inr p, st1) \<Rightarrow>
          (case Flow_orch nodes flow depth order st1 None of
             (Inl e, st2) \<Rightarrow> (Inl e, st2)
           | (Inr ob, st2) \<Rightarrow> lift (flow_post flow (params flow) p ob) st2))"

definition Flow_run ::
  "(handle \<Rightarrow> ('v, 'w, 'p, 'r) node) \<Rightarrow> ('v, 'w, 'fp, 'fr) flow \<Rightarrow> nat \<Rightarrow> (nat \<Rightarrow> handle \<Rightarrow> nat) \<Rightarrow>
   'w state \<Rightarrow> (exc + 'fr) \<times> 'w state" where
  "Flow_run nodes flow depth order shared =
     Flow_run' nodes flow depth order
       (if flow_successors flow \<noteq> [] then warn Wont_run_successors shared else shared)"

section \<open>What a run has done: the trace\<close>

text \<open>
  The facts about the trace of a run, entry by entry. Entry \<open>i\<close> of the trace of \<open>s\<close>: its
  wave is at most the current one; the completed set it saw is the nodes of the entries
  before it; when it is not the first entry, each of its dependencies in \<open>g\<close> is the node
  of an earlier entry of a smaller wave; the lifecycle of its node, run from the runtime
  state it saw, leaves the state the next entry saw (the state of \<open>s\<close> for the last
  entry); the action map holds what its \<^verbatim>\<open>post\<close> returned, \<^verbatim>\<open>or "default"\<close>; and the
  lifecycle of every entry but the last returned. \<open>state_inv\<close> holds between two
  executions: the completed set is the nodes of the trace, the action map has exactly
  these keys, and every lifecycle so far has returned. \<open>ready_ok\<close> is what a node needs
  to be executed next.
\<close>

definition entry_inv ::
  "(handle \<Rightarrow> ('v, 'w, 'p, 'r) node) \<Rightarrow> 'v params \<Rightarrow> depgraph \<Rightarrow> 'w orch \<Rightarrow> nat \<Rightarrow> bool" where
  "entry_inv nodes p g s i =
     (e_wave (trace s ! i) \<le> wave s \<and>
      e_done (trace s ! i) = map e_node (take i (trace s)) \<and>
      (0 < i \<longrightarrow> (\<forall>d\<in>deps_of g (e_node (trace s ! i)).
                   \<exists>j<i. e_node (trace s ! j) = d \<and> e_wave (trace s ! j) < e_wave (trace s ! i))) \<and>
      snd (lifecycle (nodes (e_node (trace s ! i))) p (e_seen (trace s ! i))) =
        (if Suc i < length (trace s) then e_seen (trace s ! Suc i) else rt s) \<and>
      (\<forall>raw. fst (lifecycle (nodes (e_node (trace s ! i))) p (e_seen (trace s ! i))) = Inr raw \<longrightarrow>
             action_map s (e_node (trace s ! i)) = Some (or_default raw)) \<and>
      (Suc i < length (trace s) \<longrightarrow>
         (\<exists>raw. fst (lifecycle (nodes (e_node (trace s ! i))) p (e_seen (trace s ! i))) = Inr raw)))"

definition trace_inv ::
  "(handle \<Rightarrow> ('v, 'w, 'p, 'r) node) \<Rightarrow> 'v params \<Rightarrow> depgraph \<Rightarrow> 'w orch \<Rightarrow> bool" where
  "trace_inv nodes p g s =
     (distinct (map e_node (trace s)) \<and> (\<forall>i<length (trace s). entry_inv nodes p g s i))"

definition state_inv ::
  "(handle \<Rightarrow> ('v, 'w, 'p, 'r) node) \<Rightarrow> 'v params \<Rightarrow> 'w orch \<Rightarrow> bool" where
  "state_inv nodes p s =
     (completed_nodes s = map e_node (trace s) \<and> dom (action_map s) = set (completed_nodes s) \<and>
      (\<forall>i<length (trace s).
         \<exists>raw. fst (lifecycle (nodes (e_node (trace s ! i))) p (e_seen (trace s ! i))) = Inr raw))"

definition ready_ok :: "depgraph \<Rightarrow> 'w orch \<Rightarrow> handle \<Rightarrow> bool" where
  "ready_ok g s n =
     (\<forall>d\<in>deps_of g n. \<exists>j<length (trace s). e_node (trace s ! j) = d \<and> e_wave (trace s ! j) < wave s)"

section \<open>Example nodes and flows\<close>

text \<open>An \<^verbatim>\<open>exec\<close> that fails on its first two attempts and counts its calls in the world.\<close>

definition flaky_exec :: "nat \<Rightarrow> nat \<Rightarrow> nat \<Rightarrow> (exc + nat) \<times> nat" where
  "flaky_exec cur_retry prep_res w =
     (if cur_retry < 2 then Inl (Error ''boom'') else Inr (prep_res + cur_retry), Suc w)"

text \<open>An \<^verbatim>\<open>exec\<close> that always fails, with a different exception on its third attempt, and
  a fallback that returns a value.\<close>

definition failing_exec :: "nat \<Rightarrow> nat \<Rightarrow> nat \<Rightarrow> (exc + nat) \<times> nat" where
  "failing_exec cur_retry prep_res w =
     (Inl (Error (if cur_retry = 2 then ''last'' else ''early'')), Suc w)"

definition constant_fallback :: "nat \<Rightarrow> exc \<Rightarrow> nat \<Rightarrow> (exc + nat) \<times> nat" where
  "constant_fallback prep_res e w = (Inr 42, w + 10)"

text \<open>An \<^verbatim>\<open>exec\<close> that doubles its item and adds it to the world.\<close>

definition doubling_exec :: "nat \<Rightarrow> nat \<Rightarrow> nat \<Rightarrow> (exc + nat) \<times> nat" where
  "doubling_exec cur_retry item w = (Inr (2 * item), w + item)"

definition st0 :: "nat state" where
  "st0 = \<lparr>world = 0, sleeps = [], warnings = []\<rparr>"

text \<open>
  A node over a shared context that is a list of handles: \<^verbatim>\<open>prep\<close> returns the shared
  context as it finds it, \<^verbatim>\<open>exec\<close> returns its length, and \<^verbatim>\<open>post\<close> appends the node's
  own handle to the shared context and returns the action \<open>a\<close>.
\<close>

definition writer ::
  "handle \<Rightarrow> action option \<Rightarrow> (action \<times> handle list) list \<Rightarrow> (nat, nat list, nat list, nat) node" where
  "writer n a succs =
     \<lparr>successors = succs,
      prep = (\<lambda>p w. (Inr w, w)),
      exec' = (\<lambda>p. BaseNode_exec' (\<lambda>prep_res w. (Inr (length prep_res), w))),
      post = (\<lambda>p prep_res exec_res w. (Inr a, w @ [n]))\<rparr>"

text \<open>A flow with the methods of the class, no params and no successors of its own.\<close>

definition plain_flow :: "handle option \<Rightarrow> (nat, nat list, unit, action option) flow" where
  "plain_flow start =
     \<lparr>start_node = start, params = [], flow_successors = [],
      flow_prep = BaseNode_prep, flow_post = Flow_post\<rparr>"

definition shared0 :: "nat list state" where
  "shared0 = \<lparr>world = [], sleeps = [], warnings = []\<rparr>"

text \<open>
  Three graphs. \<open>fan\<close>: node 0 leads to 1 and 2. \<open>diamond\<close>: node 0 leads to 1 and 2,
  both of which lead to 3. \<open>dead_end\<close>: node 0 has the one edge \<^verbatim>\<open>x\<close> to node 1, and every
  \<^verbatim>\<open>post\<close> returns \<^verbatim>\<open>y\<close>.
\<close>

definition fan :: "handle \<Rightarrow> (nat, nat list, nat list, nat) node" where
  "fan n = writer n None (if n = 0 then [(''default'', [1, 2])] else [])"

definition diamond :: "handle \<Rightarrow> (nat, nat list, nat list, nat) node" where
  "diamond n = writer n None
     (if n = 0 then [(''default'', [1, 2])]
      else if n = 1 \<or> n = 2 then [(''default'', [3])] else [])"

definition dead_end :: "handle \<Rightarrow> (nat, nat list, nat list, nat) node" where
  "dead_end n = writer n (Some ''y'') (if n = 0 then [(''x'', [1])] else [])"

text \<open>The runs of the three flows from node 0, with recursion depth 5 and a constant set
  order.\<close>

definition no_order :: "nat \<Rightarrow> handle \<Rightarrow> nat" where
  "no_order k n = 0"

definition fan_run :: "(exc + action option) \<times> nat list orch" where
  "fan_run = orch_run fan (plain_flow (Some 0)) 5 no_order shared0 None"

definition diamond_run :: "(exc + action option) \<times> nat list orch" where
  "diamond_run = orch_run diamond (plain_flow (Some 0)) 5 no_order shared0 None"

definition dead_end_run :: "(exc + action option) \<times> nat list orch" where
  "dead_end_run = orch_run dead_end (plain_flow (Some 0)) 5 no_order shared0 None"


definition loop2 :: "handle \<Rightarrow> (nat, nat list, nat list, nat) node" where
  "loop2 n = writer n None
     (if n = 0 then [(''default'', [1])] else if n = 1 then [(''default'', [0])] else [])"

section \<open>Retry and fallback\<close>

lemma retry_loop_fails:
  assumes "\<forall>j. k \<le> j \<and> j < k + n \<longrightarrow> (\<exists>e. is_Exception e \<and> fst (exec j p (world_before exec p w0 j)) = Inl e)"
    and "int (k + n) \<le> max_retries - 1"
    and "world st = world_before exec p w0 k"
  shows "retry_loop max_retries wait exec fallback p (n + m) k st =
         retry_loop max_retries wait exec fallback p m (k + n)
           (st\<lparr>world := world_before exec p w0 (k + n),
               sleeps := sleeps st @ (if wait > 0 then replicate n wait else [])\<rparr>)"
  using assms
proof (induction n arbitrary: k st)
  case 0
  show ?case using 0(3)[symmetric] by simp
next
  case (Suc n)
  from Suc.prems(1) obtain e where e: "is_Exception e" "fst (exec k p (world_before exec p w0 k)) = Inl e"
    by (auto dest: spec[of _ k])
  obtain w1 where w1: "exec k p (world_before exec p w0 k) = (Inl e, w1)"
    using e(2) by (cases "exec k p (world_before exec p w0 k)") auto
  have wb: "world_before exec p w0 (Suc k) = w1" using w1 by simp
  have ne: "int k \<noteq> max_retries - 1" using Suc.prems(2) by simp
  let ?st1 = "if wait > 0 then sleep wait (st\<lparr>world := w1\<rparr>) else st\<lparr>world := w1\<rparr>"
  have step: "retry_loop max_retries wait exec fallback p (Suc n + m) k st =
     retry_loop max_retries wait exec fallback p (n + m) (Suc k) ?st1"
    using e(1) w1 ne Suc.prems(3) by (simp add: lift_def)
  have "retry_loop max_retries wait exec fallback p (n + m) (Suc k) ?st1 =
     retry_loop max_retries wait exec fallback p m (Suc k + n)
           (?st1\<lparr>world := world_before exec p w0 (Suc k + n),
               sleeps := sleeps ?st1 @ (if wait > 0 then replicate n wait else [])\<rparr>)"
  proof (rule Suc.IH)
    show "\<forall>j. Suc k \<le> j \<and> j < Suc k + n \<longrightarrow> (\<exists>e. is_Exception e \<and> fst (exec j p (world_before exec p w0 j)) = Inl e)"
      using Suc.prems(1) by auto
    show "int (Suc k + n) \<le> max_retries - 1" using Suc.prems(2) by simp
    show "world ?st1 = world_before exec p w0 (Suc k)" using wb by (simp add: sleep_def)
  qed
  then show ?case using step by (simp add: sleep_def replicate_app_Cons_same)
qed

lemma retry_loop_to_last:
  assumes "max_retries = int (Suc n)"
    and "\<forall>k<n. \<exists>e. is_Exception e \<and> fst (exec k p (world_before exec p (world st) k)) = Inl e"
  shows "Node_exec' max_retries wait exec fallback p st =
         retry_loop max_retries wait exec fallback p (Suc 0) n
          (st\<lparr>world := world_before exec p (world st) n,
              sleeps := sleeps st @ (if wait > 0 then replicate n wait else [])\<rparr>)"
proof -
  have "retry_loop max_retries wait exec fallback p (n + Suc 0) 0 st =
        retry_loop max_retries wait exec fallback p (Suc 0) (0 + n)
          (st\<lparr>world := world_before exec p (world st) (0 + n),
              sleeps := sleeps st @ (if wait > 0 then replicate n wait else [])\<rparr>)"
    by (rule retry_loop_fails) (use assms in auto)
  moreover have "nat max_retries = n + Suc 0" using assms(1) by simp
  ultimately show ?thesis by (simp only: Node_exec'_def add_0)
qed

text \<open>
  C5. A node with \<^verbatim>\<open>max_retries\<close> = \<open>N \<ge> 1\<close> whose \<^verbatim>\<open>exec\<close> raises an \<^verbatim>\<open>Exception\<close> on
  attempts 1 to \<open>N - 1\<close> and returns \<open>r\<close> on attempt \<open>N\<close>: \<^verbatim>\<open>_exec\<close> returns \<open>r\<close>. The world
  it leaves is the one after exactly \<open>N\<close> calls of \<^verbatim>\<open>exec\<close>, with \<^verbatim>\<open>cur_retry\<close> from 0 to
  \<open>N - 1\<close>, so the successful call is attempt \<open>N\<close> and none follows it; the fallback is not
  called; and \<^verbatim>\<open>time.sleep\<close> has been called \<open>N - 1\<close> times when \<^verbatim>\<open>wait\<close> is positive, and
  not at all otherwise.
\<close>

theorem Node_exec_succeeds_at_last_attempt:
  assumes "max_retries = int N" and "1 \<le> N"
    and "\<forall>k<N - 1. \<exists>e. is_Exception e \<and> fst (exec k p (world_before exec p (world st) k)) = Inl e"
    and "fst (exec (N - 1) p (world_before exec p (world st) (N - 1))) = Inr r"
  shows "Node_exec' max_retries wait exec fallback p st =
           (Inr (Some r), st\<lparr>world := world_before exec p (world st) N,
                               sleeps := sleeps st @ (if wait > 0 then replicate (N - 1) wait else [])\<rparr>)"
proof -
  obtain n where n: "N = Suc n" using assms(2) by (cases N) auto
  obtain w where w: "exec n p (world_before exec p (world st) n) = (Inr r, w)"
    using assms(4) n by (cases "exec n p (world_before exec p (world st) n)") auto
  have "Node_exec' max_retries wait exec fallback p st =
         retry_loop max_retries wait exec fallback p (Suc 0) n
          (st\<lparr>world := world_before exec p (world st) n,
              sleeps := sleeps st @ (if wait > 0 then replicate n wait else [])\<rparr>)"
    by (rule retry_loop_to_last) (use assms(1,3) n in auto)
  also have "\<dots> = (Inr (Some r), st\<lparr>world := world_before exec p (world st) N,
                               sleeps := sleeps st @ (if wait > 0 then replicate (N - 1) wait else [])\<rparr>)"
    using w n by (simp add: lift_def)
  finally show ?thesis .
qed

theorem Node_exec_succeeds_at_last_attempt_witness:
  "Node_exec' 3 2 flaky_exec exec_fallback 5 st0 =
     (Inr (Some 7), \<lparr>world = 3, sleeps = [2, 2], warnings = []\<rparr>)"
proof -
  have w: "world_before flaky_exec 5 0 (Suc (Suc 0)) = 2" "world_before flaky_exec 5 0 (Suc 0) = 1"
    by (simp_all add: flaky_exec_def)
  have fails: "\<forall>k<3 - 1. \<exists>e. is_Exception e \<and> fst (flaky_exec k 5 (world_before flaky_exec 5 (world st0) k)) = Inl e"
    by (simp add: flaky_exec_def)
  have ok: "fst (flaky_exec (3 - 1) 5 (world_before flaky_exec 5 (world st0) (3 - 1))) = Inr 7"
    by (simp add: flaky_exec_def)
  have "world_before flaky_exec 5 0 3 = 3"
    using w by (simp add: flaky_exec_def numeral_3_eq_3)
  then show ?thesis
    using Node_exec_succeeds_at_last_attempt[where max_retries = 3 and N = 3 and exec = flaky_exec
        and p = 5 and st = st0 and r = 7 and wait = 2 and fallback = exec_fallback, OF _ _ fails ok]
    by (simp add: st0_def numeral_2_eq_2)
qed

text \<open>
  C6. A node with \<^verbatim>\<open>max_retries\<close> = \<open>N \<ge> 1\<close> whose \<^verbatim>\<open>exec\<close> raises an \<^verbatim>\<open>Exception\<close> on
  every attempt: \<^verbatim>\<open>_exec\<close> is one call of the fallback, on the prepare result and the
  exception of attempt \<open>N\<close>, in the world the \<open>N\<close> attempts left. With the fallback of the
  class that exception is raised again; a fallback that returns \<open>v\<close> makes \<open>v\<close> the result.
\<close>

theorem Node_exec_exhausted:
  assumes "max_retries = int N" and "1 \<le> N"
    and "\<forall>k<N. \<exists>e. is_Exception e \<and> fst (exec k p (world_before exec p (world st) k)) = Inl e"
    and "fst (exec (N - 1) p (world_before exec p (world st) (N - 1))) = Inl e_last"
  shows "Node_exec' max_retries wait exec fallback p st =
           (case fallback p e_last (world_before exec p (world st) N) of
              (res, w) \<Rightarrow> (map_sum id Some res,
                 st\<lparr>world := w, sleeps := sleeps st @ (if wait > 0 then replicate (N - 1) wait else [])\<rparr>))
       \<and> Node_exec' max_retries wait exec exec_fallback p st =
           (Inl e_last, st\<lparr>world := world_before exec p (world st) N,
                            sleeps := sleeps st @ (if wait > 0 then replicate (N - 1) wait else [])\<rparr>)
       \<and> (\<forall>v w. fallback p e_last (world_before exec p (world st) N) = (Inr v, w) \<longrightarrow>
            Node_exec' max_retries wait exec fallback p st =
              (Inr (Some v), st\<lparr>world := w, sleeps := sleeps st @ (if wait > 0 then replicate (N - 1) wait else [])\<rparr>))"
proof -
  obtain n where n: "N = Suc n" using assms(2) by (cases N) auto
  have exc: "is_Exception e_last" using assms(3,4) n by auto
  obtain w where w: "exec n p (world_before exec p (world st) n) = (Inl e_last, w)"
    using assms(4) n by (cases "exec n p (world_before exec p (world st) n)") auto
  have gen: "Node_exec' max_retries wait exec fb p st =
           (case fb p e_last (world_before exec p (world st) N) of
              (res, w) \<Rightarrow> (map_sum id Some res,
                 st\<lparr>world := w, sleeps := sleeps st @ (if wait > 0 then replicate (N - 1) wait else [])\<rparr>))"
    for fb
  proof -
    have "Node_exec' max_retries wait exec fb p st =
         retry_loop max_retries wait exec fb p (Suc 0) n
          (st\<lparr>world := world_before exec p (world st) n,
              sleeps := sleeps st @ (if wait > 0 then replicate n wait else [])\<rparr>)"
      by (rule retry_loop_to_last) (use assms(1,3) n in auto)
    also have "\<dots> = (case fb p e_last (world_before exec p (world st) N) of
              (res, w) \<Rightarrow> (map_sum id Some res,
                 st\<lparr>world := w, sleeps := sleeps st @ (if wait > 0 then replicate (N - 1) wait else [])\<rparr>))"
      using w n exc assms(1) by (simp add: lift_def split: prod.splits)
    finally show ?thesis .
  qed
  show ?thesis
    using gen[of fallback] gen[of exec_fallback] by (auto simp: exec_fallback_def)
qed

theorem Node_exec_exhausted_witness:
  "Node_exec' 3 0 failing_exec exec_fallback 5 st0 =
     (Inl (Error ''last''), \<lparr>world = 3, sleeps = [], warnings = []\<rparr>)
   \<and> Node_exec' 3 0 failing_exec constant_fallback 5 st0 =
     (Inr (Some 42), \<lparr>world = 13, sleeps = [], warnings = []\<rparr>)"
proof -
  have fails: "\<forall>k<3. \<exists>e. is_Exception e \<and> fst (failing_exec k 5 (world_before failing_exec 5 (world st0) k)) = Inl e"
    by (simp add: failing_exec_def)
  have last: "fst (failing_exec (3 - 1) 5 (world_before failing_exec 5 (world st0) (3 - 1))) = Inl (Error ''last'')"
    by (simp add: failing_exec_def)
  have w3: "world_before failing_exec 5 0 3 = 3"
    by (simp add: failing_exec_def numeral_3_eq_3)
  show ?thesis
    using Node_exec_exhausted[where max_retries = 3 and N = 3 and exec = failing_exec and p = 5
        and st = st0 and e_last = "Error ''last''" and fallback = constant_fallback and wait = 0,
        OF _ _ fails last] w3
    by (simp add: st0_def constant_fallback_def)
qed

section \<open>Batch nodes\<close>

lemma batch_items_returns:
  "batch_items mr wt ex fb xs st = (Inr rs, st') \<Longrightarrow>
     length rs = length xs \<and> st' = item_state mr wt ex fb xs st (length xs) \<and>
     (\<forall>k<length xs. fst (Node_exec' mr wt ex fb (xs ! k) (item_state mr wt ex fb xs st k)) = Inr (rs ! k))"
proof (induction xs arbitrary: st rs st')
  case Nil
  then show ?case by (simp add: item_state_def)
next
  case (Cons x xs)
  from Cons.prems obtain r st1 rs' where
    x: "Node_exec' mr wt ex fb x st = (Inr r, st1)" and
    rest: "batch_items mr wt ex fb xs st1 = (Inr rs', st')" and rs: "rs = r # rs'"
    by (auto split: prod.splits sum.splits)
  have shift: "item_state mr wt ex fb (x # xs) st (Suc k) = item_state mr wt ex fb xs st1 k" for k
    using x by (simp add: item_state_def)
  note IH = Cons.IH[OF rest]
  have "fst (Node_exec' mr wt ex fb ((x # xs) ! k) (item_state mr wt ex fb (x # xs) st k)) = Inr (rs ! k)"
    if "k < length (x # xs)" for k
  proof (cases k)
    case 0
    then show ?thesis using x rs by (simp add: item_state_def)
  next
    case (Suc j)
    then show ?thesis using IH that rs shift by simp
  qed
  then show ?case using IH rs shift by simp
qed

lemma batch_items_total:
  "\<forall>k<length xs. \<exists>r. fst (Node_exec' mr wt ex fb (xs ! k) (item_state mr wt ex fb xs st k)) = Inr r \<Longrightarrow>
     \<exists>rs. batch_items mr wt ex fb xs st = (Inr rs, item_state mr wt ex fb xs st (length xs))"
proof (induction xs arbitrary: st)
  case Nil
  then show ?case by (simp add: item_state_def)
next
  case (Cons x xs)
  from Cons.prems[rule_format, of 0] obtain r st1 where
    x: "Node_exec' mr wt ex fb x st = (Inr r, st1)"
    by (cases "Node_exec' mr wt ex fb x st") (auto simp: item_state_def)
  have shift: "item_state mr wt ex fb (x # xs) st (Suc k) = item_state mr wt ex fb xs st1 k" for k
    using x by (simp add: item_state_def)
  have "\<forall>k<length xs. \<exists>r. fst (Node_exec' mr wt ex fb (xs ! k) (item_state mr wt ex fb xs st1 k)) = Inr r"
  proof (intro allI impI)
    fix k assume "k < length xs"
    then show "\<exists>r. fst (Node_exec' mr wt ex fb (xs ! k) (item_state mr wt ex fb xs st1 k)) = Inr r"
      using Cons.prems[rule_format, of "Suc k"] shift by simp
  qed
  from Cons.IH[OF this] obtain rs where
    "batch_items mr wt ex fb xs st1 = (Inr rs, item_state mr wt ex fb xs st1 (length xs))" by blast
  then show ?case using x shift by simp
qed

text \<open>
  C8. \<^verbatim>\<open>BatchNode._exec\<close> on a sequence \<open>xs\<close> of length \<open>K\<close>: when the call of
  \<^verbatim>\<open>Node._exec\<close> on each item returns, made in the state the items before it left, the
  batch returns the list of these \<open>K\<close> results in the order of the items; and whenever the
  batch returns a list, it is that list. On \<^verbatim>\<open>None\<close> and on the empty list it returns the
  empty list and changes nothing.
\<close>

theorem BatchNode_exec_maps_items:
  "BatchNode_exec' mr wt ex fb None st = (Inr [], st)
   \<and> BatchNode_exec' mr wt ex fb (Some []) st = (Inr [], st)
   \<and> ((\<forall>k<length xs. \<exists>r. fst (Node_exec' mr wt ex fb (xs ! k) (item_state mr wt ex fb xs st k)) = Inr r) \<longrightarrow>
        (\<exists>rs. BatchNode_exec' mr wt ex fb (Some xs) st = (Inr rs, item_state mr wt ex fb xs st (length xs))))
   \<and> (\<forall>rs st'. BatchNode_exec' mr wt ex fb (Some xs) st = (Inr rs, st') \<longrightarrow>
        length rs = length xs \<and> st' = item_state mr wt ex fb xs st (length xs) \<and>
        (\<forall>k<length xs. fst (Node_exec' mr wt ex fb (xs ! k) (item_state mr wt ex fb xs st k)) = Inr (rs ! k)))"
proof (intro conjI allI impI)
  show "BatchNode_exec' mr wt ex fb None st = (Inr [], st)"
    by (simp add: BatchNode_exec'_def)
  show "BatchNode_exec' mr wt ex fb (Some []) st = (Inr [], st)"
    by (simp add: BatchNode_exec'_def)
next
  assume "\<forall>k<length xs. \<exists>r. fst (Node_exec' mr wt ex fb (xs ! k) (item_state mr wt ex fb xs st k)) = Inr r"
  then show "\<exists>rs. BatchNode_exec' mr wt ex fb (Some xs) st = (Inr rs, item_state mr wt ex fb xs st (length xs))"
    using batch_items_total[of xs mr wt ex fb st] by (simp add: BatchNode_exec'_def)
next
  fix rs st'
  assume r: "BatchNode_exec' mr wt ex fb (Some xs) st = (Inr rs, st')"
  then have b: "batch_items mr wt ex fb xs st = (Inr rs, st')" by (simp add: BatchNode_exec'_def)
  from batch_items_returns[OF b]
  show "length rs = length xs" and "st' = item_state mr wt ex fb xs st (length xs)"
    by simp_all
  fix k assume "k < length xs"
  with batch_items_returns[OF b]
  show "fst (Node_exec' mr wt ex fb (xs ! k) (item_state mr wt ex fb xs st k)) = Inr (rs ! k)"
    by simp
qed

theorem BatchNode_exec_maps_items_witness:
  "BatchNode_exec' 1 0 doubling_exec exec_fallback (Some [1, 2, 3]) st0 =
     (Inr [Some 2, Some 4, Some 6], \<lparr>world = 6, sleeps = [], warnings = []\<rparr>)"
proof -
  have run: "BatchNode_exec' 1 0 doubling_exec exec_fallback (Some [1, 2, 3]) st0 =
     (Inr [Some 2, Some 4, Some 6], \<lparr>world = 6, sleeps = [], warnings = []\<rparr>)"
    by (simp add: BatchNode_exec'_def Node_exec'_def doubling_exec_def lift_def st0_def)
  from BatchNode_exec_maps_items[of 1 0 doubling_exec exec_fallback st0 "[1, 2, 3]"]
  have "length [Some (2::nat), Some 4, Some 6] = length [1::nat, 2, 3]"
    using run by blast
  then show ?thesis using run by simp
qed

section \<open>The dependency graph construction\<close>

lemma for_each_append:
  "for_each body (xs @ ys) t =
     (case for_each body xs t of (None, t') \<Rightarrow> for_each body ys t' | (Some e, t') \<Rightarrow> (Some e, t'))"
  by (induction xs arbitrary: t) (auto split: prod.splits option.splits)

lemma for_each_concat:
  "for_each (\<lambda>a. for_each body (h a)) as s = for_each body (concat (map h as)) s"
  by (induction as arbitrary: s) (auto simp: for_each_append split: prod.splits option.splits)

lemma add_dependency_Suc:
  "add_dependency succs (Suc depth) node action g =
     for_each (\<lambda>succ g2. add_dependency succs depth succ None (add_edge node succ g2))
       (targets succs node action) (visit node g)"
  by (simp add: Let_def targets_def for_each_concat)

lemma map_of_ensure_key:
  "map_of (ensure_key n d) k = (if k = n \<and> map_of d n = None then Some [] else map_of d k)"
  by (auto simp: ensure_key_def map_add_def split: option.splits)

lemma dict_get_ensure_key [simp]: "dict_get (ensure_key n d) k [] = dict_get d k []"
  by (simp add: dict_get_def map_of_ensure_key)

lemma dom_ensure_key [simp]: "dom (map_of (ensure_key n d)) = insert n (dom (map_of d))"
  by (auto simp: map_of_ensure_key split: if_splits)

lemma map_of_set_add:
  "map_of (set_add k v d) k' = (if k' = k then map_option (List.insert v) (map_of d k) else map_of d k')"
  by (induction d) (auto simp: set_add_def)

lemma dom_set_add [simp]: "dom (map_of (set_add k v d)) = dom (map_of d)"
  by (auto simp: map_of_set_add split: if_splits)

lemma dict_get_set_add:
  "dict_get (set_add k v d) k' [] =
     (if k' = k \<and> k \<in> dom (map_of d) then List.insert v (dict_get d k []) else dict_get d k' [])"
  by (auto simp: dict_get_def map_of_set_add split: option.splits)

lemma deps_of_visit [simp]: "deps_of (visit n g) y = deps_of g y"
  by (simp add: deps_of_def visit_def)

lemma rdeps_of_visit [simp]: "rdeps_of (visit n g) y = rdeps_of g y"
  by (simp add: rdeps_of_def visit_def)

lemma keys_visit [simp]: "keys (visit n g) = insert n (keys g)"
  by (simp add: keys_def visit_def)

lemma deps_of_add_edge [simp]:
  "deps_of (add_edge n t g) y = (if y = t then insert n (deps_of g t) else deps_of g y)"
  by (simp add: deps_of_def add_edge_def dict_get_set_add)

lemma keys_add_edge [simp]: "keys (add_edge n t g) = insert t (keys g)"
  by (simp add: keys_def add_edge_def)

lemma rdeps_of_add_edge:
  "n \<in> dom (map_of (reverse_deps g)) \<Longrightarrow>
   rdeps_of (add_edge n t g) x = (if x = n then insert t (rdeps_of g n) else rdeps_of g x)"
  by (simp add: rdeps_of_def add_edge_def dict_get_set_add)

lemma wf_graph_visit: "wf_graph g \<Longrightarrow> wf_graph (visit n g)"
  unfolding wf_graph_def
  by (simp add: keys_def[symmetric]) (simp add: visit_def keys_def)

lemma wf_graph_add_edge:
  assumes wf: "wf_graph g" and n: "n \<in> keys g"
  shows "wf_graph (add_edge n t g)"
proof -
  have nr: "n \<in> dom (map_of (reverse_deps g))" using wf n by (simp add: wf_graph_def keys_def)
  have d: "dom (map_of (reverse_deps (add_edge n t g))) = dom (map_of (dependencies (add_edge n t g)))"
    using wf by (simp add: wf_graph_def add_edge_def)
  have m: "y \<in> rdeps_of (add_edge n t g) x \<longleftrightarrow> x \<in> deps_of (add_edge n t g) y" for x y
    using wf by (simp add: rdeps_of_add_edge[OF nr] wf_graph_def)
  have c: "x \<in> keys (add_edge n t g) \<and> y \<in> keys (add_edge n t g)" if "x \<in> deps_of (add_edge n t g) y" for x y
    using wf n that by (auto simp: wf_graph_def split: if_splits)
  show ?thesis unfolding wf_graph_def using d m c by blast
qed

lemma targets_None [simp]: "y \<in> set (targets succs n None) \<longleftrightarrow> edge succs n y"
  by (auto simp: targets_def edge_def)

lemma targets_edge: "y \<in> set (targets succs n act) \<Longrightarrow> edge succs n y"
proof (cases act)
  case None
  assume "y \<in> set (targets succs n act)"
  then show ?thesis using None by simp
next
  case (Some a)
  assume y: "y \<in> set (targets succs n act)"
  show ?thesis
  proof (cases "a = []")
    case True
    then have "targets succs n act = targets succs n None" using Some by (simp add: targets_def)
    then show ?thesis using y by simp
  next
    case False
    then have ya: "y \<in> set (dict_get (succs n) a [])" using y Some by (simp add: targets_def)
    then have "map_of (succs n) a \<noteq> None" by (cases "map_of (succs n) a") (auto simp: dict_get_def)
    then have "a \<in> set (map fst (succs n))" by (simp add: map_of_eq_None_iff)
    then show ?thesis using ya by (auto simp: edge_def)
  qed
qed

lemma explored_step: "t \<in> set (targets succs n act) \<Longrightarrow> explored succs t None x \<Longrightarrow> explored succs n act x"
  unfolding explored_def
  by (metis converse_rtranclp_into_rtranclp targets_None)

lemma explored_target: "t \<in> set (targets succs n act) \<Longrightarrow> explored succs n act t"
  unfolding explored_def by blast

lemma for_each_error:
  "for_each body xs s = (Some e, s') \<Longrightarrow> \<exists>x\<in>set xs. \<exists>t. body x t = (Some e, s')"
proof (induction xs arbitrary: s)
  case Nil
  then show ?case by simp
next
  case (Cons x xs)
  then show ?case by (cases "body x s") (auto split: option.splits)
qed



declare add_dependency.simps(2) [simp del]

lemma add_dependency_error:
  "add_dependency succs d n act g = (Some e, g') \<Longrightarrow> e = RecursionError"
proof (induction d arbitrary: n act g g')
  case 0
  then show ?case by simp
next
  case (Suc d)
  from for_each_error[OF Suc.prems[unfolded add_dependency_Suc]]
  obtain x t where "add_dependency succs d x None (add_edge n x t) = (Some e, g')" by blast
  then show ?case by (rule Suc.IH)
qed

lemma add_dependency_mono:
  assumes "add_dependency succs d n act g = (r, g')"
  shows "keys g \<subseteq> keys g' \<and> (\<forall>y. deps_of g y \<subseteq> deps_of g' y) \<and> (0 < d \<longrightarrow> n \<in> keys g')"
  using assms
proof (induction d arbitrary: n act g r g')
  case 0
  then show ?case by simp
next
  case (Suc d)
  let ?I = "\<lambda>t. keys (visit n g) \<subseteq> keys t \<and> (\<forall>y. deps_of g y \<subseteq> deps_of t y)"
  have "?I g'"
  proof (rule for_each_inv[OF Suc.prems(1)[unfolded add_dependency_Suc], where I = ?I])
    show "?I (visit n g)" by simp
  next
    fix x t r' t'
    assume I: "?I t" and b: "add_dependency succs d x None (add_edge n x t) = (r', t')"
    from Suc.IH[OF b]
    have k: "keys (add_edge n x t) \<subseteq> keys t'" and m: "\<And>y. deps_of (add_edge n x t) y \<subseteq> deps_of t' y"
      by simp_all
    have e: "deps_of t y \<subseteq> deps_of (add_edge n x t) y" for y by auto
    have "deps_of g y \<subseteq> deps_of t' y" for y using I e[of y] m[of y] by blast
    moreover have "keys (visit n g) \<subseteq> keys t'" using I k by auto
    ultimately show "?I t'" by simp
  qed
  then show ?case by auto
qed

lemma add_dependency_wf:
  assumes "add_dependency succs d n act g = (r, g')" and "wf_graph g"
  shows "wf_graph g'"
  using assms
proof (induction d arbitrary: n act g r g')
  case 0
  then show ?case by simp
next
  case (Suc d)
  let ?I = "\<lambda>t. wf_graph t \<and> n \<in> keys t"
  have "?I g'"
  proof (rule for_each_inv[OF Suc.prems(1)[unfolded add_dependency_Suc], where I = ?I])
    show "?I (visit n g)" using Suc.prems(2) by (simp add: wf_graph_visit)
  next
    fix x t r' t'
    assume I: "?I t" and b: "add_dependency succs d x None (add_edge n x t) = (r', t')"
    have wf: "wf_graph (add_edge n x t)" using I by (simp add: wf_graph_add_edge)
    have "n \<in> keys (add_edge n x t)" using I by simp
    then have "n \<in> keys t'" using add_dependency_mono[OF b] by blast
    then show "?I t'" using Suc.IH[OF b wf] by simp
  qed
  then show ?case by simp
qed



lemma for_each_some:
  assumes "x \<in> set xs" and "\<And>s. \<exists>e. fst (body x s) = Some e"
  shows "\<exists>e. fst (for_each body xs s) = Some e"
  using assms(1)
proof (induction xs arbitrary: s)
  case Nil
  then show ?case by simp
next
  case (Cons y ys)
  obtain r s1 where b: "body y s = (r, s1)" by (cases "body y s")
  show ?case
  proof (cases r)
    case (Some e)
    then show ?thesis using b by simp
  next
    case None
    show ?thesis
    proof (cases "x = y")
      case True
      then show ?thesis using assms(2)[of s] b None by simp
    next
      case False
      then have "x \<in> set ys" using Cons.prems by simp
      from Cons.IH[OF this, of s1] show ?thesis using b None by simp
    qed
  qed
qed

lemma for_each_none:
  assumes "\<And>x s. x \<in> set xs \<Longrightarrow> fst (body x s) = None"
  shows "fst (for_each body xs s) = None"
  using assms
proof (induction xs arbitrary: s)
  case Nil
  then show ?case by simp
next
  case (Cons y ys)
  obtain s1 where b: "body y s = (None, s1)"
    using Cons.prems[of y s] by (cases "body y s") auto
  have "fst (for_each body ys s1) = None" by (rule Cons.IH) (use Cons.prems in simp)
  then show ?case using b by simp
qed

lemma add_dependency_cycle:
  assumes "\<exists>c. (edge succs)\<^sup>*\<^sup>* n c \<and> (edge succs)\<^sup>+\<^sup>+ c c"
  shows "fst (add_dependency succs d n None g) = Some RecursionError"
  using assms
proof (induction d arbitrary: n g)
  case 0
  then show ?case by simp
next
  case (Suc d)
  from Suc.prems obtain c where c: "(edge succs)\<^sup>*\<^sup>* n c" "(edge succs)\<^sup>+\<^sup>+ c c" by blast
  have "\<exists>m. edge succs n m \<and> (edge succs)\<^sup>*\<^sup>* m c"
    using c(1)
  proof (cases rule: converse_rtranclpE)
    case base
    then show ?thesis using c(2) by (metis tranclpD)
  next
    case (step m)
    then show ?thesis by blast
  qed
  then obtain m where m: "edge succs n m" "(edge succs)\<^sup>*\<^sup>* m c" by blast
  have mt: "m \<in> set (targets succs n None)" using m(1) by simp
  have "\<exists>e. fst (add_dependency succs (Suc d) n None g) = Some e"
    unfolding add_dependency_Suc
  proof (rule for_each_some[OF mt])
    fix s
    have "fst (add_dependency succs d m None (add_edge n m s)) = Some RecursionError"
      by (rule Suc.IH) (use m(2) c(2) in blast)
    then show "\<exists>e. fst (add_dependency succs d m None (add_edge n m s)) = Some e" by blast
  qed
  then obtain e where e: "fst (add_dependency succs (Suc d) n None g) = Some e" by blast
  then have "e = RecursionError"
    using add_dependency_error[of succs "Suc d" n None g e "snd (add_dependency succs (Suc d) n None g)"]
    by (metis prod.collapse)
  then show ?case using e by simp
qed

lemma add_dependency_start_cycle:
  assumes "\<exists>c. explored succs n act c \<and> (edge succs)\<^sup>+\<^sup>+ c c"
  shows "fst (add_dependency succs d n act g) = Some RecursionError"
proof (cases d)
  case 0
  then show ?thesis by simp
next
  case (Suc d')
  from assms obtain c t where t: "t \<in> set (targets succs n act)" and c: "(edge succs)\<^sup>*\<^sup>* t c" "(edge succs)\<^sup>+\<^sup>+ c c"
    unfolding explored_def by blast
  have "\<exists>e. fst (add_dependency succs (Suc d') n act g) = Some e"
    unfolding add_dependency_Suc
  proof (rule for_each_some[OF t])
    fix s
    have "fst (add_dependency succs d' t None (add_edge n t s)) = Some RecursionError"
      by (rule add_dependency_cycle) (use c in blast)
    then show "\<exists>e. fst (add_dependency succs d' t None (add_edge n t s)) = Some e" by blast
  qed
  then obtain e where e: "fst (add_dependency succs (Suc d') n act g) = Some e" by blast
  then have "e = RecursionError"
    using add_dependency_error[of succs "Suc d'" n act g e "snd (add_dependency succs (Suc d') n act g)"]
    by (metis prod.collapse)
  then show ?thesis using e Suc by simp
qed

lemma add_dependency_ranked:
  assumes "\<And>x y. x = n \<or> explored succs n act x \<Longrightarrow> edge succs x y \<Longrightarrow> rank y < rank x"
    and "rank n < d"
  shows "fst (add_dependency succs d n act g) = None"
  using assms
proof (induction d arbitrary: n act g)
  case 0
  then show ?case by simp
next
  case (Suc d)
  show ?case
    unfolding add_dependency_Suc
  proof (rule for_each_none)
    fix t s
    assume t: "t \<in> set (targets succs n act)"
    have "rank t < rank n" using Suc.prems(1)[of n t] targets_edge[OF t] by simp
    then have rk: "rank t < d" using Suc.prems(2) by simp
    show "fst (add_dependency succs d t None (add_edge n t s)) = None"
    proof (rule Suc.IH[OF _ rk])
      fix x y
      assume "x = t \<or> explored succs t None x" and e: "edge succs x y"
      then have "explored succs n act x"
        using explored_target[OF t] explored_step[OF t] by blast
      then show "rank y < rank x" using Suc.prems(1) e by blast
    qed
  qed
qed

lemma add_dependency_expanded:
  assumes "add_dependency succs d n act g = (None, g')"
  shows "expanded g' = expanded g @ walks succs d n act"
  using assms
proof (induction d arbitrary: n act g g')
  case 0
  then show ?case by simp
next
  case (Suc d)
  have acc: "expanded s' = expanded s @ concat (map (\<lambda>succ. walks succs d succ None) xs)"
    if "for_each (\<lambda>succ g2. add_dependency succs d succ None (add_edge n succ g2)) xs s = (None, s')"
    for xs s s'
    using that
  proof (induction xs arbitrary: s)
    case Nil
    then show ?case by simp
  next
    case (Cons x xs)
    from Cons.prems obtain s1 where
      b: "add_dependency succs d x None (add_edge n x s) = (None, s1)" and
      r: "for_each (\<lambda>succ g2. add_dependency succs d succ None (add_edge n succ g2)) xs s1 = (None, s')"
      by (cases "add_dependency succs d x None (add_edge n x s)") (auto split: option.splits)
    have "expanded s1 = expanded (add_edge n x s) @ walks succs d x None" using Suc.IH[OF b] .
    then have "expanded s1 = expanded s @ walks succs d x None" by (simp add: add_edge_def)
    then show ?case using Cons.IH[OF r] by simp
  qed
  from acc[OF Suc.prems[unfolded add_dependency_Suc]]
  show ?case by (simp add: visit_def)
qed

lemma build_eq:
  "Flow_build_dependency_graph succs depth start am =
     (case add_dependency succs depth start (am start) empty_graph of
        (Some e, g) \<Rightarrow> Inl e | (None, g) \<Rightarrow> Inr g)"
  by (simp add: Flow_build_dependency_graph_def empty_graph_def)

lemma empty_graph_facts [simp]:
  "deps_of empty_graph y = {}" "rdeps_of empty_graph y = {}" "keys empty_graph = {}" "wf_graph empty_graph"
  "expanded empty_graph = []"
  by (simp_all add: empty_graph_def deps_of_def rdeps_of_def keys_def wf_graph_def dict_get_def)

lemma build_Inr:
  "Flow_build_dependency_graph succs depth start am = Inr g \<longleftrightarrow>
   add_dependency succs depth start (am start) empty_graph = (None, g)"
  by (auto simp: build_eq split: prod.splits option.splits)

lemma build_fails_on_cycle:
  assumes "\<exists>c. explored succs start (am start) c \<and> (edge succs)\<^sup>+\<^sup>+ c c"
  shows "Flow_build_dependency_graph succs depth start am = Inl RecursionError"
  using add_dependency_start_cycle[OF assms, of depth empty_graph]
  by (auto simp: build_eq split: prod.splits option.splits)


lemma diamond_build:
  "Flow_build_dependency_graph (\<lambda>n. successors (diamond n)) 5 0 [0 \<mapsto> ''default''] =
     Inr \<lparr>dependencies = [(0, []), (1, [0]), (3, [2, 1]), (2, [0])],
          reverse_deps = [(0, [2, 1]), (1, [3]), (3, []), (2, [3])],
          expanded = [0, 1, 3, 2, 3]\<rparr>"
  by code_simp

lemma loop2_cycle:
  "\<exists>c. explored (\<lambda>n. successors (loop2 n)) 0 ([0 \<mapsto> ''default''] 0) c \<and>
       (edge (\<lambda>n. successors (loop2 n)))\<^sup>+\<^sup>+ c c"
proof -
  let ?E = "edge (\<lambda>n. successors (loop2 n))"
  have e01: "?E 0 1" by (simp add: edge_def loop2_def writer_def dict_get_def)
  have e10: "?E 1 0" by (simp add: edge_def loop2_def writer_def dict_get_def)
  have "explored (\<lambda>n. successors (loop2 n)) 0 ([0 \<mapsto> ''default''] 0) 1"
    by (simp add: explored_def targets_def loop2_def writer_def dict_get_def)
  moreover have "?E\<^sup>+\<^sup>+ 1 1"
  proof -
    have "?E\<^sup>+\<^sup>+ 1 0" using e10 by (rule tranclp.r_into_trancl[where r = ?E])
    then show ?thesis using e01 by (rule tranclp.trancl_into_trancl[where r = ?E])
  qed
  ultimately show ?thesis by blast
qed



text \<open>
  C4, as the code has it. The construction has no visited set: the calls of
  \<^verbatim>\<open>add_dependency\<close> of a build that returns are those of \<open>walks\<close>, which expands every
  successor it reaches whether or not it was expanded before. So the recursion is bounded
  by the recursion depth only: when a cycle can be reached from the targets of the start
  node, the build raises \<^verbatim>\<open>RecursionError\<close> at every depth; when every edge that can be
  reached leads to a node of smaller rank, the build returns a graph once the depth is
  above the rank of the start node.
\<close>

theorem build_has_no_visited_guard:
  "(\<forall>g. Flow_build_dependency_graph succs depth start am = Inr g \<longrightarrow>
         expanded g = walks succs depth start (am start))
   \<and> ((\<exists>c. explored succs start (am start) c \<and> (edge succs)\<^sup>+\<^sup>+ c c) \<longrightarrow>
         Flow_build_dependency_graph succs depth start am = Inl RecursionError)
   \<and> ((\<forall>x y. x = start \<or> explored succs start (am start) x \<longrightarrow> edge succs x y \<longrightarrow> rank y < rank x) \<longrightarrow>
       rank start < depth \<longrightarrow>
         (\<exists>g. Flow_build_dependency_graph succs depth start am = Inr g))"
proof (intro conjI allI impI)
  fix g assume "Flow_build_dependency_graph succs depth start am = Inr g"
  then have "add_dependency succs depth start (am start) empty_graph = (None, g)" by (simp add: build_Inr)
  from add_dependency_expanded[OF this]
  show "expanded g = walks succs depth start (am start)" by simp
next
  assume "\<exists>c. explored succs start (am start) c \<and> (edge succs)\<^sup>+\<^sup>+ c c"
  then show "Flow_build_dependency_graph succs depth start am = Inl RecursionError"
    by (rule build_fails_on_cycle)
next
  assume rk: "\<forall>x y. x = start \<or> explored succs start (am start) x \<longrightarrow> edge succs x y \<longrightarrow> rank y < rank x"
    and d: "rank start < depth"
  have "fst (add_dependency succs depth start (am start) empty_graph) = None"
    by (rule add_dependency_ranked[where rank = rank and n = start and d = depth]) (use rk d in blast)+
  then show "\<exists>g. Flow_build_dependency_graph succs depth start am = Inr g"
    by (auto simp: build_eq split: prod.splits option.splits)
qed

theorem build_has_no_visited_guard_witness:
  "expanded (projr (Flow_build_dependency_graph (\<lambda>n. successors (diamond n)) 5 0 [0 \<mapsto> ''default''])) =
     walks (\<lambda>n. successors (diamond n)) 5 0 (Some ''default'')
   \<and> walks (\<lambda>n. successors (diamond n)) 5 0 (Some ''default'') = [0, 1, 3, 2, 3]
   \<and> Flow_build_dependency_graph (\<lambda>n. successors (loop2 n)) 1000 0 [0 \<mapsto> ''default''] = Inl RecursionError"
proof -
  note thm1 = build_has_no_visited_guard[of "\<lambda>n. successors (diamond n)" 5 0 "[0 \<mapsto> ''default'']" "\<lambda>n. 0"]
  note thm2 = build_has_no_visited_guard[of "\<lambda>n. successors (loop2 n)" 1000 0 "[0 \<mapsto> ''default'']" "\<lambda>n. 0"]
  have a: "expanded (projr (Flow_build_dependency_graph (\<lambda>n. successors (diamond n)) 5 0 [0 \<mapsto> ''default''])) =
     walks (\<lambda>n. successors (diamond n)) 5 0 (Some ''default'')"
    using thm1 diamond_build by simp
  have b: "walks (\<lambda>n. successors (diamond n)) 5 0 (Some ''default'') = [0, 1, 3, 2, 3]"
    using a diamond_build by simp
  have c: "Flow_build_dependency_graph (\<lambda>n. successors (loop2 n)) 1000 0 [0 \<mapsto> ''default''] = Inl RecursionError"
    using thm2 loop2_cycle by blast
  show ?thesis using a b c by simp
qed

text \<open>
  C4 as stated fails. In \<open>diamond\<close> node 3 is reached from node 1 and from node 2, and its
  successor table is enumerated twice; in \<open>loop2\<close>, where node 0 and node 1 lead to each
  other, the construction raises \<^verbatim>\<open>RecursionError\<close> at the recursion depth 1000.
\<close>

theorem revisited_node_expanded_again:
  "Flow_build_dependency_graph (\<lambda>n. successors (diamond n)) 5 0 [0 \<mapsto> ''default''] =
     Inr \<lparr>dependencies = [(0, []), (1, [0]), (3, [2, 1]), (2, [0])],
          reverse_deps = [(0, [2, 1]), (1, [3]), (3, []), (2, [3])],
          expanded = [0, 1, 3, 2, 3]\<rparr>
   \<and> Flow_build_dependency_graph (\<lambda>n. successors (loop2 n)) 1000 0 [0 \<mapsto> ''default''] = Inl RecursionError"
  using diamond_build
    build_fails_on_cycle[where succs = "\<lambda>n. successors (loop2 n)" and start = 0
      and am = "[0 \<mapsto> ''default'']" and depth = 1000, OF loop2_cycle]
  by simp

section \<open>The orchestration loop keeps the trace facts\<close>

lemma execute_node_new:
  assumes "n \<notin> dom (action_map s)" and "execute_node nodes p n s = (r, s')"
  shows "trace s' = trace s @ [\<lparr>e_wave = wave s, e_node = n, e_done = completed_nodes s, e_seen = rt s\<rparr>]"
    and "rt s' = snd (lifecycle (nodes n) p (rt s))"
    and "r = None \<longleftrightarrow> (\<exists>raw. fst (lifecycle (nodes n) p (rt s)) = Inr raw)"
    and "\<And>raw. fst (lifecycle (nodes n) p (rt s)) = Inr raw \<Longrightarrow>
           action_map s' = (action_map s)(n \<mapsto> or_default raw)"
    and "r \<noteq> None \<Longrightarrow> action_map s' = action_map s"
    and "\<And>e. r = Some e \<longleftrightarrow> fst (lifecycle (nodes n) p (rt s)) = Inl e"
  using assms
  by (auto simp: execute_node_def Let_def domIff split: prod.splits sum.splits)

lemma execute_node_inv:
  assumes tinv: "trace_inv nodes p g s" and sinv: "state_inv nodes p s"
    and fresh: "n \<notin> set (completed_nodes s)"
    and ready: "trace s \<noteq> [] \<Longrightarrow>
       \<forall>d\<in>deps_of g n. \<exists>j<length (trace s). e_node (trace s ! j) = d \<and> e_wave (trace s ! j) < wave s"
    and ex: "execute_node nodes p n s = (r, s')"
  shows "trace_inv nodes p g s'"
    and "r = None \<Longrightarrow> state_inv nodes p (s'\<lparr>completed_nodes := completed_nodes s' @ [n]\<rparr>)"
proof -
  let ?tr = "trace s"
  let ?e = "\<lparr>e_wave = wave s, e_node = n, e_done = completed_nodes s, e_seen = rt s\<rparr>"
  have nd: "n \<notin> dom (action_map s)" using fresh sinv by (simp add: state_inv_def)
  note new = execute_node_new[OF nd ex]
  note frame = execute_node_frame[OF ex]
  have comp: "completed_nodes s = map e_node ?tr" using sinv by (simp add: state_inv_def)
  have tr': "trace s' = ?tr @ [?e]" by (rule new(1))
  have am: "action_map s' m = action_map s m" if "m \<noteq> n" for m
  proof (cases r)
    case None
    then obtain raw where "fst (lifecycle (nodes n) p (rt s)) = Inr raw" using new(3) by auto
    from new(4)[OF this] that show ?thesis by simp
  next
    case (Some e)
    then show ?thesis using new(5) by simp
  qed
  have dist: "distinct (map e_node (trace s'))"
    using tinv fresh comp tr' by (simp add: trace_inv_def)
  have old: "entry_inv nodes p g s' i" if i: "i < length ?tr" for i
  proof -
    have ei: "entry_inv nodes p g s i" using tinv i by (simp add: trace_inv_def)
    have nth: "trace s' ! i = ?tr ! i" using i tr' by (simp add: nth_append)
    have nthj: "trace s' ! j = ?tr ! j" if "j < i" for j using i that tr' by (simp add: nth_append)
    have tk: "take i (trace s') = take i ?tr" using i tr' by simp
    have ne: "e_node (?tr ! i) \<noteq> n" using fresh comp i by (metis nth_map nth_mem length_map)
    have ok: "\<exists>raw. fst (lifecycle (nodes (e_node (?tr ! i))) p (e_seen (?tr ! i))) = Inr raw"
      using sinv i by (simp add: state_inv_def)
    have nxt: "(if Suc i < length (trace s') then e_seen (trace s' ! Suc i) else rt s') =
               (if Suc i < length ?tr then e_seen (?tr ! Suc i) else rt s)"
      using i tr' by (auto simp: nth_append)
    have dj: "(\<exists>j<i. e_node (trace s' ! j) = d \<and> e_wave (trace s' ! j) < w) =
              (\<exists>j<i. e_node (?tr ! j) = d \<and> e_wave (?tr ! j) < w)" for d w
      using nthj by auto
    show ?thesis
      unfolding entry_inv_def nth tk nxt dj
      using ei ok am[OF ne] frame
      by (auto simp: entry_inv_def)
  qed
  have last: "entry_inv nodes p g s' (length ?tr)"
  proof -
    have nth: "trace s' ! length ?tr = ?e" using tr' by simp
    have tk: "take (length ?tr) (trace s') = ?tr" using tr' by simp
    have nthj: "trace s' ! j = ?tr ! j" if "j < length ?tr" for j using that tr' by (simp add: nth_append)
    have deps: "\<forall>d\<in>deps_of g n. \<exists>j<length ?tr. e_node (trace s' ! j) = d \<and> e_wave (trace s' ! j) < wave s"
      if "0 < length ?tr"
    proof
      fix d assume "d \<in> deps_of g n"
      with ready that obtain j where "j < length ?tr" "e_node (?tr ! j) = d" "e_wave (?tr ! j) < wave s"
        by auto
      then show "\<exists>j<length ?tr. e_node (trace s' ! j) = d \<and> e_wave (trace s' ! j) < wave s"
        using nthj by auto
    qed
    have act: "action_map s' n = Some (or_default raw)"
      if "fst (lifecycle (nodes n) p (rt s)) = Inr raw" for raw
      using new(4)[OF that] by simp
    show ?thesis
      unfolding entry_inv_def nth tk
      using comp frame new(2) deps act tr' by auto
  qed
  show "trace_inv nodes p g s'"
    unfolding trace_inv_def
  proof (intro conjI allI impI)
    show "distinct (map e_node (trace s'))" by (rule dist)
    fix i assume "i < length (trace s')"
    then have "i < length ?tr \<or> i = length ?tr" using tr' by auto
    then show "entry_inv nodes p g s' i" using old last by blast
  qed
  show "state_inv nodes p (s'\<lparr>completed_nodes := completed_nodes s' @ [n]\<rparr>)" if "r = None"
  proof -
    from that obtain raw where raw: "fst (lifecycle (nodes n) p (rt s)) = Inr raw" using new(3) by auto
    have dm: "dom (action_map s') = insert n (dom (action_map s))" using new(4)[OF raw] by simp
    have all: "\<exists>raw. fst (lifecycle (nodes (e_node (trace s' ! i))) p (e_seen (trace s' ! i))) = Inr raw"
      if "i < length (trace s')" for i
    proof (cases "i < length ?tr")
      case True
      then show ?thesis using sinv tr' by (simp add: state_inv_def nth_append)
    next
      case False
      then have "i = length ?tr" using that tr' by simp
      then show ?thesis using raw tr' by simp
    qed
    show ?thesis
      unfolding state_inv_def
      using comp frame tr' dm sinv all by (auto simp: state_inv_def)
  qed
qed

lemma trace_inv_completed_update [simp]:
  "trace_inv nodes p g (s\<lparr>completed_nodes := c\<rparr>) = trace_inv nodes p g s"
  by (simp add: trace_inv_def entry_inv_def)

lemma trace_inv_wave_Suc:
  "trace_inv nodes p g s \<Longrightarrow> trace_inv nodes p g (s\<lparr>wave := Suc (wave s)\<rparr>)"
  by (auto simp: trace_inv_def entry_inv_def)

lemma state_inv_wave_update [simp]:
  "state_inv nodes p (s\<lparr>wave := k\<rparr>) = state_inv nodes p s"
  by (simp add: state_inv_def)

lemma run_wave_inv:
  assumes "trace_inv nodes p g s" and "state_inv nodes p s"
    and "\<forall>n\<in>set ready. n \<notin> set (completed_nodes s) \<longrightarrow> ready_ok g s n"
    and "run_wave nodes p ready s = (r, s')"
  shows "trace_inv nodes p g s' \<and> (r = None \<longrightarrow> state_inv nodes p s') \<and>
         graph s' = graph s \<and> wave s' = wave s"
  using assms
proof (induction ready arbitrary: s)
  case Nil
  then show ?case by (simp add: run_wave_def)
next
  case (Cons n ready)
  show ?case
  proof (cases "n \<in> set (completed_nodes s)")
    case True
    then have "run_wave nodes p ready s = (r, s')"
      using Cons.prems(4) by (simp add: run_wave_def)
    then show ?thesis using Cons.IH[of s] Cons.prems(1,2,3) by simp
  next
    case False
    obtain r1 s1 where ex: "execute_node nodes p n s = (r1, s1)"
      by (cases "execute_node nodes p n s")
    have rk: "ready_ok g s n" using Cons.prems(3) False by simp
    have t1: "trace_inv nodes p g s1"
      by (rule execute_node_inv(1)[OF Cons.prems(1,2) False _ ex]) (use rk in \<open>simp add: ready_ok_def\<close>)
    note frame = execute_node_frame[OF ex]
    show ?thesis
    proof (cases r1)
      case (Some e)
      then have "r = Some e" "s' = s1" using Cons.prems(4) ex False by (simp_all add: run_wave_def)
      then show ?thesis using t1 frame by simp
    next
      case None
      let ?s2 = "s1\<lparr>completed_nodes := completed_nodes s1 @ [n]\<rparr>"
      have rest: "run_wave nodes p ready ?s2 = (r, s')"
        using Cons.prems(4) ex False None by (simp add: run_wave_def)
      have s2: "state_inv nodes p ?s2"
        by (rule execute_node_inv(2)[OF Cons.prems(1,2) False _ ex None]) (use rk in \<open>simp add: ready_ok_def\<close>)
      have nd: "n \<notin> dom (action_map s)" using False Cons.prems(2) by (simp add: state_inv_def)
      have tr1: "trace s1 = trace s @ [\<lparr>e_wave = wave s, e_node = n, e_done = completed_nodes s, e_seen = rt s\<rparr>]"
        by (rule execute_node_new(1)[OF nd ex])
      have keep: "ready_ok g ?s2 m" if "ready_ok g s m" for m
        unfolding ready_ok_def
      proof
        fix d assume "d \<in> deps_of g m"
        with that obtain j where j: "j < length (trace s)" "e_node (trace s ! j) = d" "e_wave (trace s ! j) < wave s"
          by (auto simp: ready_ok_def)
        then have "j < length (trace ?s2) \<and> e_node (trace ?s2 ! j) = d \<and> e_wave (trace ?s2 ! j) < wave ?s2"
          using tr1 frame by (simp add: nth_append)
        then show "\<exists>j<length (trace ?s2). e_node (trace ?s2 ! j) = d \<and> e_wave (trace ?s2 ! j) < wave ?s2"
          by blast
      qed
      have r2: "\<forall>m\<in>set ready. m \<notin> set (completed_nodes ?s2) \<longrightarrow> ready_ok g ?s2 m"
        using Cons.prems(3) keep frame by auto
      have "trace_inv nodes p g s' \<and> (r = None \<longrightarrow> state_inv nodes p s') \<and>
         graph s' = graph ?s2 \<and> wave s' = wave ?s2"
        by (rule Cons.IH[OF _ s2 r2 rest]) (use t1 in simp)
      then show ?thesis using frame by simp
    qed
  qed
qed

lemma collect_ready_sound:
  assumes "collect_ready g completed = (r, ready)"
  shows "\<forall>n\<in>set ready. deps_of g n \<subseteq> set completed"
proof -
  let ?inner = "\<lambda>dependent ready_nodes.
               case map_of (dependencies g) dependent of
                 None \<Rightarrow> (Some KeyError, ready_nodes)
               | Some deps \<Rightarrow>
                   (None, if \<forall>dep\<in>set deps. dep \<in> set completed
                          then ready_nodes @ [dependent] else ready_nodes)"
  let ?I = "\<lambda>a. \<forall>n\<in>set a. deps_of g n \<subseteq> set completed"
  have inner: "?I acc'"
    if "for_each ?inner xs acc = (r', acc')" "?I acc" for xs acc r' acc'
  proof (rule for_each_inv[OF that(1), where I = ?I])
    show "?I acc" by fact
  next
    fix x s r s'
    assume I: "?I s" and b: "?inner x s = (r, s')"
    show "?I s'"
    proof (cases "map_of (dependencies g) x")
      case None
      then show ?thesis using I b by simp
    next
      case (Some deps)
      then have dx: "deps_of g x = set deps" by (simp add: deps_of_def dict_get_def)
      show ?thesis
      proof (cases "\<forall>dep\<in>set deps. dep \<in> set completed")
        case True
        then have "s' = s @ [x]" using b Some by auto
        then show ?thesis using I dx True by auto
      next
        case False
        then have "s' = s" using b Some by auto
        then show ?thesis using I by simp
      qed
    qed
  qed
  show ?thesis
    by (rule for_each_inv[OF assms[unfolded collect_ready_def], where I = ?I]) (use inner in auto)
qed

lemma wave_loop_inv:
  assumes "trace_inv nodes p g s" and "state_inv nodes p s" and "graph s = g"
    and "\<forall>n\<in>set ready. n \<notin> set (completed_nodes s) \<longrightarrow> deps_of g n \<subseteq> set (completed_nodes s)"
    and "wave_loop nodes p order ready s = (r, s')"
  shows "trace_inv nodes p g s' \<and> graph s' = g \<and> (r = None \<longrightarrow> state_inv nodes p s')"
  using assms
proof (induction nodes p order ready s rule: wave_loop.induct)
  case (1 nodes p order ready_nodes s)
  show ?case
  proof (cases "ready_nodes = []")
    case True
    then show ?thesis using "1.prems" by (simp add: wave_loop.simps[of nodes p order "[]" s])
  next
    case False
    let ?s0 = "s\<lparr>wave := Suc (wave s)\<rparr>"
    obtain r1 s1 where w: "run_wave nodes p ready_nodes ?s0 = (r1, s1)"
      by (cases "run_wave nodes p ready_nodes ?s0")
    have t0: "trace_inv nodes p g ?s0" using "1.prems"(1) by (rule trace_inv_wave_Suc)
    have s0: "state_inv nodes p ?s0" using "1.prems"(2) by simp
    have comp: "completed_nodes s = map e_node (trace s)" using "1.prems"(2) by (simp add: state_inv_def)
    have rk: "\<forall>n\<in>set ready_nodes. n \<notin> set (completed_nodes ?s0) \<longrightarrow> ready_ok g ?s0 n"
    proof (intro ballI impI)
      fix n assume n: "n \<in> set ready_nodes" "n \<notin> set (completed_nodes ?s0)"
      then have sub: "deps_of g n \<subseteq> set (completed_nodes s)" using "1.prems"(4) by simp
      show "ready_ok g ?s0 n"
        unfolding ready_ok_def
      proof
        fix d assume "d \<in> deps_of g n"
        then have "d \<in> set (map e_node (trace s))" using sub comp by auto
        then obtain j where j: "j < length (trace s)" "e_node (trace s ! j) = d"
          by (auto simp: in_set_conv_nth)
        then have "e_wave (trace s ! j) \<le> wave s"
          using "1.prems"(1) by (simp add: trace_inv_def entry_inv_def)
        then show "\<exists>j<length (trace ?s0). e_node (trace ?s0 ! j) = d \<and> e_wave (trace ?s0 ! j) < wave ?s0"
          using j by auto
      qed
    qed
    from run_wave_inv[OF t0 s0 rk w]
    have t1: "trace_inv nodes p g s1" and s1: "r1 = None \<longrightarrow> state_inv nodes p s1"
      and g1: "graph s1 = g" using "1.prems"(3) by simp_all
    show ?thesis
    proof (cases r1)
      case (Some e)
      then have "s' = s1" "r = Some e" using "1.prems"(5) False w by (simp_all add: wave_loop.simps[of nodes p order ready_nodes s])
      then show ?thesis using t1 g1 by simp
    next
      case None
      obtain r2 ready where c: "collect_ready (graph s1) (completed_nodes s1) = (r2, ready)"
        by (cases "collect_ready (graph s1) (completed_nodes s1)")
      show ?thesis
      proof (cases r2)
        case (Some e)
        then have "s' = s1" "r = Some e" using "1.prems"(5) False w None c by (simp_all add: wave_loop.simps[of nodes p order ready_nodes s])
        then show ?thesis using t1 g1 by simp
      next
        case None2: None
        let ?ready' = "list_of_set (order (wave s1)) (filter (\<lambda>n. n \<notin> set (completed_nodes s1)) ready)"
        have rec: "wave_loop nodes p order ?ready' s1 = (r, s')"
          using "1.prems"(5) False w None c None2 by (simp add: wave_loop.simps[of nodes p order ready_nodes s])
        have rd: "\<forall>n\<in>set ?ready'. n \<notin> set (completed_nodes s1) \<longrightarrow> deps_of g n \<subseteq> set (completed_nodes s1)"
          using collect_ready_sound[OF c] g1 by (auto simp: list_of_set_def)
        show ?thesis
          by (rule "1.IH"[OF False w[symmetric] _ c[symmetric] _ t1 _ g1 rd rec])
             (use None None2 s1 in auto)
      qed
    qed
  qed
qed

lemma trace_inv_graph_update [simp]:
  "trace_inv nodes p g (s\<lparr>graph := g'\<rparr>) = trace_inv nodes p g s"
  by (simp add: trace_inv_def entry_inv_def)

lemma state_inv_graph_update [simp]:
  "state_inv nodes p (s\<lparr>graph := g'\<rparr>) = state_inv nodes p s"
  by (simp add: state_inv_def)

lemma execute_node_trace_ext:
  "execute_node nodes p n s = (r, s') \<Longrightarrow> \<exists>ys. trace s' = trace s @ ys"
  by (auto simp: execute_node_def Let_def split: if_splits prod.splits sum.splits)

lemma run_wave_trace_ext:
  assumes "run_wave nodes p ready s = (r, s')"
  shows "\<exists>ys. trace s' = trace s @ ys"
proof (rule for_each_inv[OF assms[unfolded run_wave_def], where I = "\<lambda>t. \<exists>ys. trace t = trace s @ ys"])
  show "\<exists>ys. trace s = trace s @ ys" by simp
next
  fix x t r t'
  assume "\<exists>ys. trace t = trace s @ ys"
    and "(if x \<in> set (completed_nodes t) then (None, t)
          else case execute_node nodes p x t of
                 (None, s2) \<Rightarrow> (None, s2\<lparr>completed_nodes := completed_nodes s2 @ [x]\<rparr>)
               | (Some e, s2) \<Rightarrow> (Some e, s2)) = (r, t')"
  then show "\<exists>ys. trace t' = trace s @ ys"
    by (auto split: if_splits prod.splits option.splits dest!: execute_node_trace_ext)
qed

lemma wave_loop_trace_ext:
  "wave_loop nodes p order ready s = (r, s') \<Longrightarrow> \<exists>ys. trace s' = trace s @ ys"
proof (induction nodes p order ready s rule: wave_loop.induct)
  case (1 nodes p order ready_nodes s)
  show ?case
  proof (cases "ready_nodes = []")
    case True
    then show ?thesis using "1.prems" by (simp add: wave_loop.simps[of nodes p order "[]" s])
  next
    case False
    let ?s0 = "s\<lparr>wave := Suc (wave s)\<rparr>"
    obtain r1 s1 where w: "run_wave nodes p ready_nodes ?s0 = (r1, s1)"
      by (cases "run_wave nodes p ready_nodes ?s0")
    from run_wave_trace_ext[OF w] obtain ys where ys: "trace s1 = trace s @ ys" by auto
    show ?thesis
    proof (cases r1)
      case (Some e)
      then have "s' = s1" using "1.prems" False w by (simp add: wave_loop.simps[of nodes p order ready_nodes s])
      then show ?thesis using ys by simp
    next
      case None
      obtain r2 ready where c: "collect_ready (graph s1) (completed_nodes s1) = (r2, ready)"
        by (cases "collect_ready (graph s1) (completed_nodes s1)")
      show ?thesis
      proof (cases r2)
        case (Some e)
        then have "s' = s1" using "1.prems" False w None c by (simp add: wave_loop.simps[of nodes p order ready_nodes s])
        then show ?thesis using ys by simp
      next
        case None2: None
        let ?ready' = "list_of_set (order (wave s1)) (filter (\<lambda>n. n \<notin> set (completed_nodes s1)) ready)"
        have rec: "wave_loop nodes p order ?ready' s1 = (r, s')"
          using "1.prems" False w None c None2 by (simp add: wave_loop.simps[of nodes p order ready_nodes s])
        have "\<exists>zs. trace s' = trace s1 @ zs"
          by (rule "1.IH"[OF False w[symmetric] _ c[symmetric] _ rec]) (use None None2 in auto)
        then show ?thesis using ys by auto
      qed
    qed
  qed
qed

lemma orch_run_inv:
  assumes run: "orch_run nodes flow depth order shared prms = (res, s)"
  shows "trace_inv nodes (orch_params flow prms) (graph s) s"
    and "start_node flow = None \<Longrightarrow> res = Inl AttributeError \<and> s = orch_init shared"
    and "\<And>start. start_node flow = Some start \<Longrightarrow>
           \<exists>ys. trace s = \<lparr>e_wave = 0, e_node = start, e_done = [], e_seen = shared\<rparr> # ys"
    and "\<And>start r. start_node flow = Some start \<Longrightarrow> res = Inr r \<Longrightarrow> r = action_map s start"
    and "\<And>r. res = Inr r \<Longrightarrow> state_inv nodes (orch_params flow prms) s"
proof -
  let ?p = "orch_params flow prms"
  let ?s0 = "orch_init shared"
  have t0: "trace_inv nodes ?p g ?s0" for g by (simp add: trace_inv_def orch_init_def)
  have i0: "state_inv nodes ?p ?s0" by (simp add: state_inv_def orch_init_def)
  show none: "res = Inl AttributeError \<and> s = orch_init shared" if "start_node flow = None"
    using run that by (simp add: orch_run_def orch_init_def)
  have main: "trace_inv nodes ?p (graph s) s \<and>
        (\<exists>ys. trace s = \<lparr>e_wave = 0, e_node = start, e_done = [], e_seen = shared\<rparr> # ys) \<and>
        (\<forall>r. res = Inr r \<longrightarrow> r = action_map s start \<and> state_inv nodes ?p s)"
    if st: "start_node flow = Some start" for start
  proof -
    obtain r1 s1 where ex: "execute_node nodes ?p start ?s0 = (r1, s1)"
      by (cases "execute_node nodes ?p start ?s0")
    have fresh: "start \<notin> set (completed_nodes ?s0)" by (simp add: orch_init_def)
    have emp: "trace ?s0 = []" by (simp add: orch_init_def)
    have t1: "trace_inv nodes ?p g s1" for g
      by (rule execute_node_inv(1)[OF t0 i0 fresh _ ex]) (use emp in simp)
    have nd: "start \<notin> dom (action_map ?s0)" by (simp add: orch_init_def)
    have tr1: "trace s1 = [\<lparr>e_wave = 0, e_node = start, e_done = [], e_seen = shared\<rparr>]"
      using execute_node_new(1)[OF nd ex] by (simp add: orch_init_def)
    note frame = execute_node_frame[OF ex]
    show ?thesis
    proof (cases r1)
      case (Some e)
      then have "res = Inl e" "s = s1" using run st ex by (simp_all add: orch_run_def orch_init_def Let_def)
      then show ?thesis using t1 tr1 by simp
    next
      case None
      show ?thesis
      proof (cases "Flow_build_dependency_graph (\<lambda>n. successors (nodes n)) depth start (action_map s1)")
        case (Inl e)
        then have "res = Inl e" "s = s1" using run st ex None by (simp_all add: orch_run_def orch_init_def Let_def)
        then show ?thesis using t1 tr1 by simp
      next
        case (Inr g)
        let ?s2 = "s1\<lparr>graph := g, completed_nodes := [start]\<rparr>"
        let ?ready = "filter (\<lambda>node. set (dict_get (dependencies g) node []) \<subseteq> set (completed_nodes ?s2))
                                           (map fst (dependencies g))"
        obtain r3 s3 where wl: "wave_loop nodes ?p order ?ready ?s2 = (r3, s3)"
          by (cases "wave_loop nodes ?p order ?ready ?s2")
        have res: "s = s3" "res = (case r3 of Some e \<Rightarrow> Inl e | None \<Rightarrow> Inr (action_map s3 start))"
          using run st ex None Inr wl by (auto simp: orch_run_def orch_init_def Let_def split: option.splits)
        have t2: "trace_inv nodes ?p g ?s2" using t1[of g] by simp
        have "state_inv nodes ?p (s1\<lparr>completed_nodes := completed_nodes s1 @ [start]\<rparr>)"
          by (rule execute_node_inv(2)[OF t0 i0 fresh _ ex None]) (use emp in simp)
        then have i2: "state_inv nodes ?p ?s2"
          using frame tr1 by (simp add: state_inv_def orch_init_def)
        have rd: "\<forall>n\<in>set ?ready. n \<notin> set (completed_nodes ?s2) \<longrightarrow> deps_of g n \<subseteq> set (completed_nodes ?s2)"
          by (auto simp: deps_of_def)
        have g2: "graph ?s2 = g" by simp
        from wave_loop_inv[OF t2 i2 g2 rd wl] have t3: "trace_inv nodes ?p g s3" "graph s3 = g"
          "r3 = None \<longrightarrow> state_inv nodes ?p s3" by simp_all
        from wave_loop_trace_ext[OF wl] tr1 obtain ys where
          "trace s3 = \<lparr>e_wave = 0, e_node = start, e_done = [], e_seen = shared\<rparr> # ys" by auto
        then show ?thesis using t3 res by (auto split: option.splits)
      qed
    qed
  qed
  show "\<exists>ys. trace s = \<lparr>e_wave = 0, e_node = start, e_done = [], e_seen = shared\<rparr> # ys"
    if "start_node flow = Some start" for start using main[OF that] by blast
  show "r = action_map s start" if "start_node flow = Some start" "res = Inr r" for start r
    using main[OF that(1)] that(2) by blast
  show "state_inv nodes ?p s" if "res = Inr r" for r
  proof (cases "start_node flow")
    case None
    then show ?thesis using none that by simp
  next
    case (Some start)
    then show ?thesis using main that by blast
  qed
  show "trace_inv nodes ?p (graph s) s"
  proof (cases "start_node flow")
    case None
    then show ?thesis using none t0 by simp
  next
    case (Some start)
    then show ?thesis using main by blast
  qed
qed

lemma collect_ready_ok:
  assumes "wf_graph g"
  shows "fst (collect_ready g completed) = None"
  unfolding collect_ready_def
proof (rule for_each_none, rule for_each_none)
  fix node dependent and ready_nodes :: "handle list"
  assume "dependent \<in> set (dict_get (reverse_deps g) node [])"
  then have "dependent \<in> rdeps_of g node" by (simp add: rdeps_of_def)
  then have "node \<in> deps_of g dependent" using assms by (simp add: wf_graph_def)
  then have "dependent \<in> keys g" using assms by (simp add: wf_graph_def)
  then obtain deps where "map_of (dependencies g) dependent = Some deps" by (auto simp: keys_def)
  then show "fst (case map_of (dependencies g) dependent of
                 None \<Rightarrow> (Some KeyError, ready_nodes)
               | Some deps \<Rightarrow>
                   (None, if \<forall>dep\<in>set deps. dep \<in> set completed
                          then ready_nodes @ [dependent] else ready_nodes)) = None"
    by simp
qed

lemma execute_node_ok:
  assumes "\<And>n st. \<exists>a. fst (lifecycle (nodes n) p st) = Inr a"
  shows "fst (execute_node nodes p n s) = None"
proof -
  obtain a where "fst (lifecycle (nodes n) p (rt s)) = Inr a" using assms by blast
  then show ?thesis
    by (cases "lifecycle (nodes n) p (rt s)") (auto simp: execute_node_def Let_def)
qed

lemma run_wave_ok:
  assumes "\<And>n st. \<exists>a. fst (lifecycle (nodes n) p st) = Inr a"
  shows "fst (run_wave nodes p ready s) = None"
  unfolding run_wave_def
proof (rule for_each_none)
  fix n s1
  have "fst (execute_node nodes p n s1) = None" using assms by (rule execute_node_ok)
  then show "fst (if n \<in> set (completed_nodes s1) then (None, s1)
          else case execute_node nodes p n s1 of
                 (None, s2) \<Rightarrow> (None, s2\<lparr>completed_nodes := completed_nodes s2 @ [n]\<rparr>)
               | (Some e, s2) \<Rightarrow> (Some e, s2)) = None"
    by (cases "execute_node nodes p n s1") auto
qed

lemma wave_loop_ok:
  assumes "\<forall>n st. \<exists>a. fst (lifecycle (nodes n) p st) = Inr a" and "wf_graph (graph s)"
  shows "fst (wave_loop nodes p order ready s) = None"
  using assms
proof (induction nodes p order ready s rule: wave_loop.induct)
  case (1 nodes p order ready_nodes s)
  show ?case
  proof (cases "ready_nodes = []")
    case True
    then show ?thesis by (simp add: wave_loop.simps[of nodes p order "[]" s])
  next
    case False
    let ?s0 = "s\<lparr>wave := Suc (wave s)\<rparr>"
    obtain r1 s1 where w: "run_wave nodes p ready_nodes ?s0 = (r1, s1)"
      by (cases "run_wave nodes p ready_nodes ?s0")
    have "fst (run_wave nodes p ready_nodes ?s0) = None"
      by (rule run_wave_ok) (use "1.prems"(1) in blast)
    then have r1: "r1 = None" using w by simp
    have g1: "graph s1 = graph s" using run_wave_completed[of nodes p ready_nodes ?s0 s1] w r1 by simp
    obtain r2 ready where c: "collect_ready (graph s1) (completed_nodes s1) = (r2, ready)"
      by (cases "collect_ready (graph s1) (completed_nodes s1)")
    have "fst (collect_ready (graph s1) (completed_nodes s1)) = None"
      by (rule collect_ready_ok) (use g1 "1.prems"(2) in simp)
    then have r2: "r2 = None" using c by simp
    let ?ready' = "list_of_set (order (wave s1)) (filter (\<lambda>n. n \<notin> set (completed_nodes s1)) ready)"
    have "fst (wave_loop nodes p order ?ready' s1) = None"
      by (rule "1.IH"[OF False w[symmetric] _ c[symmetric] _ "1.prems"(1)])
         (use r1 r2 g1 "1.prems"(2) in auto)
    then show ?thesis
      using False w r1 c r2 by (simp add: wave_loop.simps[of nodes p order ready_nodes s])
  qed
qed

lemma orch_run_returns:
  assumes st: "start_node flow = Some start"
    and ok: "\<forall>n st. \<exists>a. fst (lifecycle (nodes n) (orch_params flow prms) st) = Inr a"
    and rk: "\<forall>x y. edge (\<lambda>n. successors (nodes n)) x y \<longrightarrow> rank y < rank x"
    and d: "rank start < depth"
  shows "\<exists>a. fst (orch_run nodes flow depth order shared prms) = Inr (Some a)"
proof -
  let ?p = "orch_params flow prms"
  let ?succs = "\<lambda>n. successors (nodes n)"
  obtain r1 s1 where ex: "execute_node nodes ?p start (orch_init shared) = (r1, s1)"
    by (cases "execute_node nodes ?p start (orch_init shared)")
  have r1: "r1 = None" using execute_node_ok[of nodes ?p start "orch_init shared"] ok ex by simp
  have nd: "start \<notin> dom (action_map (orch_init shared))" by (simp add: orch_init_def)
  obtain raw where raw: "fst (lifecycle (nodes start) ?p (rt (orch_init shared))) = Inr raw"
    using ok by blast
  have am1: "action_map s1 = (action_map (orch_init shared))(start \<mapsto> or_default raw)"
    by (rule execute_node_new(4)[OF nd ex raw])
  have "fst (add_dependency ?succs depth start (action_map s1 start) empty_graph) = None"
    by (rule add_dependency_ranked[where rank = rank]) (use rk d in blast)+
  then obtain g where b: "add_dependency ?succs depth start (action_map s1 start) empty_graph = (None, g)"
    by (cases "add_dependency ?succs depth start (action_map s1 start) empty_graph") auto
  then have build: "Flow_build_dependency_graph ?succs depth start (action_map s1) = Inr g"
    by (simp add: build_Inr)
  have wf: "wf_graph g" using add_dependency_wf[OF b] by simp
  let ?s2 = "s1\<lparr>graph := g, completed_nodes := [start]\<rparr>"
  let ?ready = "filter (\<lambda>node. set (dict_get (dependencies g) node []) \<subseteq> set (completed_nodes ?s2))
                                           (map fst (dependencies g))"
  obtain r3 s3 where wl: "wave_loop nodes ?p order ?ready ?s2 = (r3, s3)"
    by (cases "wave_loop nodes ?p order ?ready ?s2")
  have "fst (wave_loop nodes ?p order ?ready ?s2) = None"
    by (rule wave_loop_ok[OF ok]) (use wf in simp)
  then have r3: "r3 = None" using wl by simp
  have res: "orch_run nodes flow depth order shared prms = (Inr (action_map s3 start), s3)"
    using st ex r1 build wl r3 by (simp add: orch_run_def Let_def)
  from orch_run_inv(5)[OF res] have si: "state_inv nodes ?p s3" by simp
  from orch_run_inv(3)[OF res st] obtain ys where
    tr: "trace s3 = \<lparr>e_wave = 0, e_node = start, e_done = [], e_seen = shared\<rparr> # ys" by blast
  have "start \<in> set (completed_nodes s3)" using si tr by (simp add: state_inv_def)
  then have "start \<in> dom (action_map s3)" using si by (simp add: state_inv_def)
  then show ?thesis using res by auto
qed

section \<open>Orchestration runs\<close>

lemma diamond_run_facts:
  "fst diamond_run = Inr (Some ''default'')"
  "map (\<lambda>e. (e_wave e, e_node e, e_done e)) (trace (snd diamond_run)) =
     [(0, 0, []), (1, 1, [0]), (1, 2, [0, 1]), (2, 3, [0, 1, 2])]"
  "dependencies (graph (snd diamond_run)) = [(0, []), (1, [0]), (3, [2, 1]), (2, [0])]"
  by (code_simp, code_simp, code_simp)

text \<open>
  C1, as the code has it. In every orchestration run, whatever its outcome, the trace
  starts with the start node, and for entry \<open>i\<close> of the trace: the completed set at the
  moment its node is executed is the set of nodes executed before; when the node is not the
  start node, its whole dependency set in the graph of the run is in that completed set,
  and each of its dependencies was executed in a strictly earlier wave, so that a node and
  a node that depends on it are never executed in the same wave; and the runtime state
  (with it the shared context) the node is handed is the one left by the node executed
  just before it, in an earlier wave or in its own: it holds the writes of all nodes
  executed before it, not only those of earlier waves.
\<close>

theorem orch_executes_after_dependencies:
  assumes "orch_run nodes flow depth order shared prms = (res, s)" and "i < length (trace s)"
  shows "start_node flow = Some (e_node (trace s ! 0))
       \<and> e_done (trace s ! i) = map e_node (take i (trace s))
       \<and> (0 < i \<longrightarrow>
            e_node (trace s ! i) \<noteq> e_node (trace s ! 0)
            \<and> deps_of (graph s) (e_node (trace s ! i)) \<subseteq> set (e_done (trace s ! i))
            \<and> (\<forall>d\<in>deps_of (graph s) (e_node (trace s ! i)).
                  \<exists>j<i. e_node (trace s ! j) = d \<and> e_wave (trace s ! j) < e_wave (trace s ! i)))
       \<and> e_seen (trace s ! i) =
           (if i = 0 then shared
            else snd (lifecycle (nodes (e_node (trace s ! (i - 1)))) (orch_params flow prms)
                       (e_seen (trace s ! (i - 1)))))"
proof -
  let ?p = "orch_params flow prms"
  note inv = orch_run_inv[OF assms(1)]
  have tinv: "trace_inv nodes ?p (graph s) s" by (rule inv(1))
  have ne: "trace s \<noteq> []" using assms(2) by auto
  obtain start where st: "start_node flow = Some start"
    using inv(2) ne by (cases "start_node flow") (auto simp: orch_init_def)
  from inv(3)[OF st] obtain ys where
    tr: "trace s = \<lparr>e_wave = 0, e_node = start, e_done = [], e_seen = shared\<rparr> # ys" by blast
  have e0: "e_node (trace s ! 0) = start" "e_seen (trace s ! 0) = shared" using tr by simp_all
  have ei: "entry_inv nodes ?p (graph s) s i" using tinv assms(2) by (simp add: trace_inv_def)
  have dist: "distinct (map e_node (trace s))" using tinv by (simp add: trace_inv_def)
  have dn: "e_done (trace s ! i) = map e_node (take i (trace s))" using ei by (simp add: entry_inv_def)
  have pos: "e_node (trace s ! i) \<noteq> e_node (trace s ! 0)
            \<and> deps_of (graph s) (e_node (trace s ! i)) \<subseteq> set (e_done (trace s ! i))
            \<and> (\<forall>d\<in>deps_of (graph s) (e_node (trace s ! i)).
                  \<exists>j<i. e_node (trace s ! j) = d \<and> e_wave (trace s ! j) < e_wave (trace s ! i))"
    if "0 < i"
  proof (intro conjI)
    have "i < length (map e_node (trace s))" "0 < length (map e_node (trace s))"
      using assms(2) ne by simp_all
    with dist have "map e_node (trace s) ! i \<noteq> map e_node (trace s) ! 0"
      using that by (metis nth_eq_iff_index_eq less_numeral_extra(3))
    then show "e_node (trace s ! i) \<noteq> e_node (trace s ! 0)" using assms(2) ne by simp
    show w: "\<forall>d\<in>deps_of (graph s) (e_node (trace s ! i)).
                  \<exists>j<i. e_node (trace s ! j) = d \<and> e_wave (trace s ! j) < e_wave (trace s ! i)"
      using ei that by (simp add: entry_inv_def)
    show "deps_of (graph s) (e_node (trace s ! i)) \<subseteq> set (e_done (trace s ! i))"
    proof
      fix d assume "d \<in> deps_of (graph s) (e_node (trace s ! i))"
      with w obtain j where j: "j < i" "e_node (trace s ! j) = d" by blast
      then have "take i (trace s) ! j = trace s ! j" by simp
      moreover have "j < length (take i (trace s))" using j assms(2) by simp
      ultimately have "trace s ! j \<in> set (take i (trace s))" by (metis nth_mem)
      then show "d \<in> set (e_done (trace s ! i))" using dn j by force
    qed
  qed
  have seen: "e_seen (trace s ! i) =
       snd (lifecycle (nodes (e_node (trace s ! (i - 1)))) ?p (e_seen (trace s ! (i - 1))))"
    if "0 < i"
  proof -
    have i1: "i - 1 < length (trace s)" "Suc (i - 1) = i" using assms(2) that by simp_all
    have "entry_inv nodes ?p (graph s) s (i - 1)" using tinv i1 by (simp add: trace_inv_def)
    then show ?thesis using i1 assms(2) by (simp add: entry_inv_def)
  qed
  show ?thesis using st e0 dn pos seen by auto
qed

theorem orch_executes_after_dependencies_witness:
  "e_node (trace (snd diamond_run) ! 3) = 3
   \<and> deps_of (graph (snd diamond_run)) 3 = {1, 2}
   \<and> e_done (trace (snd diamond_run) ! 3) = [0, 1, 2]
   \<and> deps_of (graph (snd diamond_run)) (e_node (trace (snd diamond_run) ! 3))
       \<subseteq> set (e_done (trace (snd diamond_run) ! 3))"
proof -
  have run: "orch_run diamond (plain_flow (Some 0)) 5 no_order shared0 None = (fst diamond_run, snd diamond_run)"
    by (simp add: diamond_run_def)
  have tr: "map (\<lambda>e. (e_wave e, e_node e, e_done e)) (trace (snd diamond_run)) =
     [(0, 0, []), (1, 1, [0]), (1, 2, [0, 1]), (2, 3, [0, 1, 2])]" by (rule diamond_run_facts(2))
  have len: "3 < length (trace (snd diamond_run))"
    using arg_cong[OF tr, of length] by simp
  have e3: "(e_wave (trace (snd diamond_run) ! 3), e_node (trace (snd diamond_run) ! 3),
             e_done (trace (snd diamond_run) ! 3)) = (2, 3, [0, 1, 2])"
    using arg_cong[OF tr, of "\<lambda>xs. xs ! 3"] len by simp
  have d3: "deps_of (graph (snd diamond_run)) 3 = {1, 2}"
    by (auto simp: deps_of_def dict_get_def diamond_run_facts(3))
  have pos: "0 < (3::nat)" by simp
  from orch_executes_after_dependencies[OF run len] pos
  have "deps_of (graph (snd diamond_run)) (e_node (trace (snd diamond_run) ! 3))
       \<subseteq> set (e_done (trace (snd diamond_run) ! 3))" by blast
  then show ?thesis using e3 d3 by simp
qed

text \<open>
  C1 as stated fails in its last part. In the flow \<open>fan\<close> the nodes 1 and 2 are both in
  wave 1, and node 2 is handed the shared context \<open>[0, 1]\<close>, which holds the write of
  node 1, a node of its own wave.
\<close>

theorem same_wave_write_observed:
  "map (\<lambda>e. (e_wave e, e_node e, world (e_seen e))) (trace (snd fan_run)) =
     [(0, 0, []), (1, 1, [0]), (1, 2, [0, 1])]"
  by code_simp

text \<open>
  C2. In every orchestration run the lifecycle is started at most once for each node: no
  node occurs twice in the trace. And \<^verbatim>\<open>execute_node\<close> on a node that has an entry in the
  action map returns at once and changes nothing.
\<close>

theorem node_executed_at_most_once:
  "(orch_run nodes flow depth order shared prms = (res, s) \<longrightarrow> distinct (map e_node (trace s)))
   \<and> (action_map t n \<noteq> None \<longrightarrow> execute_node nodes p n t = (None, t))"
proof (intro conjI impI)
  assume "orch_run nodes flow depth order shared prms = (res, s)"
  from orch_run_inv(1)[OF this] show "distinct (map e_node (trace s))"
    by (simp add: trace_inv_def)
next
  assume "action_map t n \<noteq> None"
  then show "execute_node nodes p n t = (None, t)" by (simp add: execute_node_def)
qed

theorem node_executed_at_most_once_witness:
  "map e_node (trace (snd diamond_run)) = [0, 1, 2, 3]
   \<and> distinct (map e_node (trace (snd diamond_run)))
   \<and> execute_node diamond [] 3 (snd diamond_run) = (None, snd diamond_run)"
proof -
  have run: "orch_run diamond (plain_flow (Some 0)) 5 no_order shared0 None = (fst diamond_run, snd diamond_run)"
    by (simp add: diamond_run_def)
  have am: "action_map (snd diamond_run) 3 \<noteq> None" by code_simp
  have tr: "map e_node (trace (snd diamond_run)) = [0, 1, 2, 3]" by code_simp
  from node_executed_at_most_once[of diamond "plain_flow (Some 0)" 5 no_order shared0 None
      "fst diamond_run" "snd diamond_run" "snd diamond_run" 3 "[]"] run am tr
  show ?thesis by simp
qed

text \<open>
  C7. In every orchestration run, the action recorded for an executed node whose \<^verbatim>\<open>post\<close>
  returned \<open>raw\<close> is \<^verbatim>\<open>raw or "default"\<close>, which is \<^verbatim>\<open>"default"\<close> when \<open>raw\<close> is \<^verbatim>\<open>None\<close>; and a
  run that returns, returns the entry of the action map for the start node, which is what
  the \<^verbatim>\<open>post\<close> of the start node returned, \<^verbatim>\<open>or "default"\<close>. The run does return, with an
  action, when the flow has a start node, no lifecycle raises, every edge leads to a node
  of smaller rank and the recursion depth is above the rank of the start node.
\<close>

theorem orch_returns_start_action:
  assumes "orch_run nodes flow depth order shared prms = (res, s)"
  shows "(\<forall>i<length (trace s). \<forall>raw.
            fst (lifecycle (nodes (e_node (trace s ! i))) (orch_params flow prms) (e_seen (trace s ! i))) = Inr raw \<longrightarrow>
            action_map s (e_node (trace s ! i)) = Some (or_default raw))
       \<and> or_default None = ''default''
       \<and> (\<forall>r. res = Inr r \<longrightarrow>
            (\<exists>start raw st. start_node flow = Some start \<and> r = action_map s start \<and>
               lifecycle (nodes start) (orch_params flow prms) shared = (Inr raw, st) \<and>
               r = Some (or_default raw)))
       \<and> (\<forall>start rank.
            start_node flow = Some start \<longrightarrow>
            (\<forall>n st. \<exists>a. fst (lifecycle (nodes n) (orch_params flow prms) st) = Inr a) \<longrightarrow>
            (\<forall>x y. edge (\<lambda>n. successors (nodes n)) x y \<longrightarrow> rank y < rank x) \<longrightarrow>
            rank start < depth \<longrightarrow>
            (\<exists>a. res = Inr (Some a)))"
proof (intro conjI allI impI)
  fix start and rank :: "handle \<Rightarrow> nat"
  assume "start_node flow = Some start"
    and "\<forall>n st. \<exists>a. fst (lifecycle (nodes n) (orch_params flow prms) st) = Inr a"
    and "\<forall>x y. edge (\<lambda>n. successors (nodes n)) x y \<longrightarrow> rank y < rank x"
    and "rank start < depth"
  then have "\<exists>a. fst (orch_run nodes flow depth order shared prms) = Inr (Some a)"
    by (rule orch_run_returns)
  then show "\<exists>a. res = Inr (Some a)" using assms by simp
next
  let ?p = "orch_params flow prms"
  note inv = orch_run_inv[OF assms]
  show "or_default None = ''default''" by (simp add: or_default_def)
  {
    fix i raw
    assume "i < length (trace s)"
      and "fst (lifecycle (nodes (e_node (trace s ! i))) ?p (e_seen (trace s ! i))) = Inr raw"
    then show "action_map s (e_node (trace s ! i)) = Some (or_default raw)"
      using inv(1) by (simp add: trace_inv_def entry_inv_def)
  }
  fix r assume r: "res = Inr r"
  then obtain start where st: "start_node flow = Some start"
    using inv(2) by (cases "start_node flow") auto
  from inv(3)[OF st] obtain ys where
    tr: "trace s = \<lparr>e_wave = 0, e_node = start, e_done = [], e_seen = shared\<rparr> # ys" by blast
  have "state_inv nodes ?p s" using inv(5) r by blast
  then obtain raw where raw: "fst (lifecycle (nodes start) ?p shared) = Inr raw"
    using tr by (fastforce simp: state_inv_def)
  have "entry_inv nodes ?p (graph s) s 0" using inv(1) tr by (simp add: trace_inv_def)
  then have "action_map s start = Some (or_default raw)" using raw tr by (simp add: entry_inv_def)
  moreover have "r = action_map s start" using inv(4)[OF st r] .
  moreover obtain st' where "lifecycle (nodes start) ?p shared = (Inr raw, st')"
    using raw by (cases "lifecycle (nodes start) ?p shared") auto
  ultimately show "\<exists>start raw st. start_node flow = Some start \<and> r = action_map s start \<and>
               lifecycle (nodes start) ?p shared = (Inr raw, st) \<and> r = Some (or_default raw)"
    using st by auto
qed

theorem orch_returns_start_action_witness:
  "fst fan_run = Inr (Some ''default'')
   \<and> action_map (snd fan_run) 0 = Some ''default''
   \<and> fst (lifecycle (fan 0) [] shared0) = Inr None"
proof -
  have run: "orch_run fan (plain_flow (Some 0)) 5 no_order shared0 None = (fst fan_run, snd fan_run)"
    by (simp add: fan_run_def)
  have res: "fst fan_run = Inr (Some ''default'')" by code_simp
  have lc: "fst (lifecycle (fan 0) [] shared0) = Inr None" by code_simp
  from orch_returns_start_action[OF run] res
  obtain start where "start_node (plain_flow (Some 0)) = Some start"
    "Some ''default'' = action_map (snd fan_run) start" by auto
  then have "action_map (snd fan_run) 0 = Some ''default''" by (simp add: plain_flow_def)
  then show ?thesis using res lc by simp
qed

text \<open>
  C9 does not hold of the code. In the flow \<open>dead_end\<close> the start node returns the action
  \<^verbatim>\<open>y\<close>, for which it has no successors, while it has one under \<^verbatim>\<open>x\<close>. The run returns
  \<^verbatim>\<open>y\<close> and executes the start node only, but no warning is emitted, by \<^verbatim>\<open>_orch\<close> or by
  \<^verbatim>\<open>run\<close>: \<^verbatim>\<open>get_next_nodes\<close>, which would emit it on this node and action, is never called.
\<close>

theorem unreachable_action_gives_no_warning:
  "fst dead_end_run = Inr (Some ''y'')
   \<and> map e_node (trace (snd dead_end_run)) = [0]
   \<and> warnings (rt (snd dead_end_run)) = []
   \<and> Flow_run dead_end (plain_flow (Some 0)) 5 no_order shared0 =
       (Inr (Some ''y''), \<lparr>world = [0], sleeps = [], warnings = []\<rparr>)
   \<and> warnings (snd (Flow_get_next_nodes (successors (dead_end 0)) (Some ''y'') shared0)) =
       [Flow_ends ''y'' [''x'']]"
  by code_simp



end
